theory Spec2Isabelle
  imports Complex_Main
begin

section \<open>Python values shared by both components\<close>

text \<open>
  Exceptions of the Python source are values: every function that can raise returns
  \<open>error + 'a\<close>, with \<open>Inl\<close> the exception.
\<close>

datatype error = AssertionError | IndexError | ValueError | TypeError

text \<open>
  \<open>gurobi.GRB.INFINITY\<close> and its negation are the two unbounded values a bound or a
  right-hand side can take beside a finite float.
\<close>

datatype grb = NegInfinity | Finite real | PosInfinity

fun grb_le :: "real \<Rightarrow> grb \<Rightarrow> bool" where
  "grb_le v NegInfinity = False"
| "grb_le v (Finite b) = (v \<le> b)"
| "grb_le v PosInfinity = True"

fun grb_ge :: "real \<Rightarrow> grb \<Rightarrow> bool" where
  "grb_ge v NegInfinity = True"
| "grb_ge v (Finite b) = (b \<le> v)"
| "grb_ge v PosInfinity = False"

text \<open>Python indexing \<open>xs[i]\<close>: a negative index counts from the end, out of range raises.\<close>

definition py_index :: "'a list \<Rightarrow> int \<Rightarrow> error + nat" where
  "py_index xs i =
     (let n = int (length xs); j = (if i < 0 then n + i else i)
      in if 0 \<le> j \<and> j < n then Inr (nat j) else Inl IndexError)"

text \<open>Python slicing \<open>xs[a:b]\<close>: both ends are clamped, a negative end counts from the end.\<close>

definition py_clamp :: "'a list \<Rightarrow> int \<Rightarrow> nat" where
  "py_clamp xs i =
     (let n = int (length xs)
      in if i < 0 then nat (max 0 (n + i)) else nat (min i n))"

definition py_slice :: "'a list \<Rightarrow> int \<Rightarrow> int \<Rightarrow> 'a list" where
  "py_slice xs a b = drop (py_clamp xs a) (take (py_clamp xs b) xs)"

section \<open>CurtailableLoad\<close>

subsection \<open>The optimisation model\<close>

text \<open>
  A Gurobi variable is identified by its kind and its timestep in the window; the entity
  keeps the variable objects (with their bounds) in \<open>P_El_vars\<close> and \<open>P_State_vars\<close>.
  A linear constraint is a list of weighted variables compared with a right-hand side.
  The constraints live in the model; the entity keeps handles on some of them, here the
  positions in the model's constraint list, so that a write through a handle is a write to
  the model.
\<close>

datatype var = P_El nat | P_State nat

datatype vtype = CONTINUOUS | BINARY

record gvar =
  vid :: var
  lb :: grb
  ub :: grb
  vtype :: vtype

datatype sense = GREATER_EQUAL | LESS_EQUAL

record constr =
  lhs :: "(real \<times> var) list"
  sense :: sense
  RHS :: grb

record CurtailableLoad =
  P_El_Nom :: real
  max_curt :: real
  max_low :: "int option"
  min_full :: "int option"
  P_El_Curt :: real
  op_horizon :: nat
  currentTimestep :: int
  P_El_Schedule :: "real list"
  P_State_Schedule :: "bool list"
  P_El_vars :: "gvar list"
  P_State_vars :: "gvar list"
  constr_previous_state :: "nat list"
  constr_previous :: "nat list"
  constr_previous_start :: "nat option"

subsection \<open>Construction\<close>

text \<open>
  \<open>__init__\<close>: the environment contributes the window length and the total number of
  timesteps (the length of the schedules, all zero, resp. all \<open>False\<close>, at the start).
  The four assertions are checked in the order of the source.
\<close>

definition init ::
  "nat \<Rightarrow> nat \<Rightarrow> real \<Rightarrow> real \<Rightarrow> int option \<Rightarrow> int option \<Rightarrow> error + CurtailableLoad" where
  "init timestepsUsedHorizon timestepsTotal P_El_Nom' max_curtailment max_low' min_full' =
     (if (max_low' \<noteq> None \<or> min_full' \<noteq> None) \<and> max_low' = None then Inl AssertionError
      else if (max_low' \<noteq> None \<or> min_full' \<noteq> None) \<and> min_full' = None then Inl AssertionError
      else if (max_low' \<noteq> None \<or> min_full' \<noteq> None) \<and> \<not> (the min_full' \<ge> 1) then Inl AssertionError
      else if (max_low' \<noteq> None \<or> min_full' \<noteq> None) \<and> \<not> (the max_low' \<ge> 0) then Inl AssertionError
      else Inr \<lparr> P_El_Nom = P_El_Nom',
                 max_curt = max_curtailment,
                 max_low = max_low',
                 min_full = min_full',
                 P_El_Curt = P_El_Nom' * max_curtailment,
                 op_horizon = timestepsUsedHorizon,
                 currentTimestep = 0,
                 P_El_Schedule = replicate timestepsTotal 0,
                 P_State_Schedule = replicate timestepsTotal False,
                 P_El_vars = [],
                 P_State_vars = [],
                 constr_previous_state = [],
                 constr_previous = [],
                 constr_previous_start = None \<rparr>)"

subsection \<open>populate_model\<close>

definition quicksum :: "gvar list \<Rightarrow> (real \<times> var) list" where
  "quicksum vs = map (\<lambda>v. (1, vid v)) vs"

definition negsum :: "gvar list \<Rightarrow> (real \<times> var) list" where
  "negsum vs = map (\<lambda>v. (- 1, vid v)) vs"

text \<open>
  Modelled from the spec: the parent class \<open>ElectricalEntity\<close> is not among the sources.
  Its \<open>populate_model\<close> gives the entity one power variable per timestep of the window
  (spec section 3: a per-timestep power trajectory over \<open>t \<in> [0, op_horizon)\<close>), created
  with the defaults of \<open>addVar\<close> as the sibling \<open>ThermalEntity.populate_model\<close> does.
\<close>

definition ElectricalEntity_populate_model :: "CurtailableLoad \<Rightarrow> CurtailableLoad" where
  "ElectricalEntity_populate_model self =
     self\<lparr>P_El_vars :=
       map (\<lambda>t. \<lparr>vid = P_El t, lb = Finite 0, ub = PosInfinity, vtype = CONTINUOUS\<rparr>)
         [0..<op_horizon self]\<rparr>"

text \<open>
  The integer branch. The variables \<open>P_State_vars[t]\<close> and \<open>P_El_vars[t]\<close> read by the
  loops over \<open>op_time_vec\<close> exist by construction (one of each was just created per
  timestep). A loop whose body asserts raises when one of its iterations does; otherwise it
  adds the constraints of all its iterations in order. \<open>addConstr\<close> appends to the model,
  and the handle it returns is the position of the new constraint.
\<close>

definition populate_integer ::
  "constr list \<Rightarrow> CurtailableLoad \<Rightarrow> int \<Rightarrow> int \<Rightarrow> error + (CurtailableLoad \<times> constr list)" where
  "populate_integer model self ml mf =
     (let H = op_horizon self;
          S = P_State_vars self @
              map (\<lambda>t. \<lparr>vid = P_State t, lb = Finite 0, ub = Finite 1, vtype = BINARY\<rparr>) [0..<H];
          P = P_El_vars self;
          coupling = map (\<lambda>t. \<lparr>lhs = [(P_El_Nom self, vid (S ! t)), (- 1, vid (P ! t))],
                                 sense = LESS_EQUAL, RHS = Finite 0\<rparr>) [0..<H];
          max_overlap = min (max ml (mf - 1)) (int H);
          previous_state = map (\<lambda>t. \<lparr>lhs = quicksum (py_slice S 0 t),
                                       sense = GREATER_EQUAL, RHS = NegInfinity\<rparr>) [1..max_overlap];
          h0 = length model + length coupling;
          next_states = (\<lambda>t. py_slice S (int t) (int t + ml + 1))
      in if \<exists>t \<in> set [0..<H]. \<not> (1 \<le> length (next_states t) \<and> int (length (next_states t)) \<le> ml + 1)
         then Inl AssertionError
         else
           let max_low_constrs =
                 map (\<lambda>t. \<lparr>lhs = quicksum (next_states t), sense = GREATER_EQUAL, RHS = Finite 1\<rparr>)
                   (filter (\<lambda>t. int (length (next_states t)) = ml + 1) [0..<H]);
               model1 = model @ coupling @ previous_state @ max_low_constrs;
               self1 = self\<lparr>P_State_vars := S,
                            constr_previous_state :=
                              constr_previous_state self @ [h0..<h0 + length previous_state]\<rparr>
           in if mf > 1 then
                (if S = [] then Inl IndexError
                 else
                   let start_states = py_slice S 1 mf;
                       start = \<lparr>lhs = (real (length start_states), vid (S ! 0)) # negsum start_states,
                                sense = LESS_EQUAL, RHS = PosInfinity\<rparr>;
                       ts = py_slice [0..<H] 0 (- 2);
                       run_states = (\<lambda>t. py_slice S (int t + 2) (int t + mf + 1))
                   in if \<exists>t \<in> set ts. \<not> (1 \<le> length (run_states t) \<and> int (length (run_states t)) \<le> mf - 1)
                      then Inl AssertionError
                      else Inr (self1\<lparr>constr_previous_start := Some (length model1)\<rparr>,
                                model1 @ [start] @
                                map (\<lambda>t. \<lparr>lhs = [(real (length (run_states t)), vid (S ! (t + 1))),
                                                  (- real (length (run_states t)), vid (S ! t))]
                                                 @ negsum (run_states t),
                                           sense = LESS_EQUAL, RHS = Finite 0\<rparr>) ts))
              else Inr (self1, model1))"

text \<open>The relaxed branch: sliding-window energy constraints, and the history constraints.\<close>

definition populate_convex ::
  "constr list \<Rightarrow> CurtailableLoad \<Rightarrow> int \<Rightarrow> int \<Rightarrow> error + (CurtailableLoad \<times> constr list)" where
  "populate_convex model self ml mf =
     (let H = op_horizon self;
          P = P_El_vars self;
          width = mf + ml;
          ts = py_slice [0..<H] 0 (- width + 1);
          next_vars = (\<lambda>t. py_slice P (int t) (int t + width))
      in if \<exists>t \<in> set ts. int (length (next_vars t)) \<noteq> width then Inl AssertionError
         else
           let window = map (\<lambda>t. \<lparr>lhs = quicksum (next_vars t), sense = GREATER_EQUAL,
                                    RHS = Finite (P_El_Nom self * real_of_int mf
                                                  + P_El_Curt self * real_of_int ml)\<rparr>) ts;
               max_overlap = min (ml + mf - 1) (int H);
               previous = map (\<lambda>overlap. \<lparr>lhs = quicksum (py_slice P 0 (overlap + 1)),
                                            sense = GREATER_EQUAL, RHS = NegInfinity\<rparr>)
                            [0..max_overlap - 1];
               h0 = length model + length window
           in Inr (self\<lparr>constr_previous :=
                          constr_previous self @ [h0..<h0 + length previous]\<rparr>,
                   model @ window @ previous))"

definition populate_model ::
  "constr list \<Rightarrow> string \<Rightarrow> CurtailableLoad \<Rightarrow> error + (CurtailableLoad \<times> constr list)" where
  "populate_model model mode self0 =
     (let self1 = ElectricalEntity_populate_model self0
      in if mode = ''convex'' \<or> mode = ''integer'' then
           let self2 = self1\<lparr>P_El_vars :=
                          map (\<lambda>v. v\<lparr>lb := Finite (P_El_Curt self1), ub := Finite (P_El_Nom self1)\<rparr>)
                            (P_El_vars self1)\<rparr>
           in (case max_low self2 of
                 None \<Rightarrow> Inr (self2, model)
               | Some ml \<Rightarrow>
                   if ml = 0 then
                     Inr (self2\<lparr>P_El_vars :=
                                  map (\<lambda>v. v\<lparr>lb := Finite (P_El_Nom self2)\<rparr>) (P_El_vars self2)\<rparr>,
                          model)
                   else (case min_full self2 of
                           None \<Rightarrow> Inl TypeError
                         | Some mf \<Rightarrow>
                             if mode = ''integer'' then populate_integer model self2 ml mf
                             else populate_convex model self2 ml mf))
         else Inl ValueError)"

subsection \<open>update_model\<close>

definition py_get :: "'a list \<Rightarrow> int \<Rightarrow> error + 'a" where
  "py_get xs i = (case py_index xs i of Inl e \<Rightarrow> Inl e | Inr j \<Rightarrow> Inr (xs ! j))"

text \<open>\<open>constr.RHS = v\<close> through a handle writes to the constraint in the model.\<close>

definition set_RHS :: "constr list \<Rightarrow> nat \<Rightarrow> grb \<Rightarrow> constr list" where
  "set_RHS model h v = model[h := (model ! h)\<lparr>RHS := v\<rparr>]"

text \<open>\<open>handles[i].RHS = v\<close>: the handle is looked up with Python's indexing first.\<close>

definition set_RHS_at :: "constr list \<Rightarrow> nat list \<Rightarrow> int \<Rightarrow> grb \<Rightarrow> error + constr list" where
  "set_RHS_at model handles i v =
     (case py_get handles i of Inl e \<Rightarrow> Inl e | Inr h \<Rightarrow> Inr (set_RHS model h v))"

text \<open>
  The two backward scans over the realised state schedule. Both start at \<open>1\<close> (the step
  before the window is already known) and stop at the start of the simulation or where the
  state changes. The second one asserts in its body.
\<close>

function count_full :: "bool list \<Rightarrow> int \<Rightarrow> int \<Rightarrow> error + int" where
  "count_full schedule timestep full_ts =
     (if timestep - full_ts - 1 \<ge> 0 then
        (case py_get schedule (timestep - full_ts - 1) of
           Inl e \<Rightarrow> Inl e
         | Inr b \<Rightarrow> if b then count_full schedule timestep (full_ts + 1) else Inr full_ts)
      else Inr full_ts)"
  by pat_completeness auto
termination
  by (relation "measure (\<lambda>(schedule, timestep, full_ts). nat (timestep - full_ts))") auto

function count_low :: "bool list \<Rightarrow> int \<Rightarrow> int \<Rightarrow> int \<Rightarrow> error + int" where
  "count_low schedule timestep ml low_ts =
     (if timestep - low_ts - 1 \<ge> 0 then
        (case py_get schedule (timestep - low_ts - 1) of
           Inl e \<Rightarrow> Inl e
         | Inr b \<Rightarrow>
             if \<not> b then
               (if low_ts \<le> ml then count_low schedule timestep ml (low_ts + 1)
                else Inl AssertionError)
             else Inr low_ts)
      else Inr low_ts)"
  by pat_completeness auto
termination
  by (relation "measure (\<lambda>(schedule, timestep, ml, low_ts). nat (timestep - low_ts))") auto

text \<open>The discrete encoding: the block guarded by \<open>timestep != 0\<close>.\<close>

definition update_previous_state :: "constr list \<Rightarrow> CurtailableLoad \<Rightarrow> error + constr list" where
  "update_previous_state model self =
     (let timestep = currentTimestep self;
          handles = constr_previous_state self;
          model1 = foldl (\<lambda>m h. set_RHS m h NegInfinity) model handles
      in case py_get (P_State_Schedule self) (timestep - 1) of
           Inl e \<Rightarrow> Inl e
         | Inr previous \<Rightarrow>
             let model2 = (case constr_previous_start self of
                             None \<Rightarrow> model1
                           | Some h \<Rightarrow> set_RHS model1 h (if previous then PosInfinity else Finite 0))
             in if previous then
                  (case count_full (P_State_Schedule self) timestep 1 of
                     Inl e \<Rightarrow> Inl e
                   | Inr full_ts \<Rightarrow>
                       if timestep - full_ts - 1 < 0 then Inr model2
                       else (case min_full self of
                               None \<Rightarrow> Inl TypeError
                             | Some mf \<Rightarrow>
                                 let remaining_fulls = mf - full_ts
                                 in if remaining_fulls \<le> 0 then Inr model2
                                    else if remaining_fulls > int (op_horizon self) then
                                      set_RHS_at model2 handles (- 1) (Finite (real (op_horizon self)))
                                    else
                                      set_RHS_at model2 handles (remaining_fulls - 1)
                                        (Finite (real_of_int remaining_fulls))))
                else
                  (case max_low self of
                     None \<Rightarrow> (if timestep - 2 \<ge> 0 then
                                (case py_get (P_State_Schedule self) (timestep - 2) of
                                   Inl e \<Rightarrow> Inl e | Inr b \<Rightarrow> Inl TypeError)
                              else Inl TypeError)
                   | Some ml \<Rightarrow>
                       (case count_low (P_State_Schedule self) timestep ml 1 of
                          Inl e \<Rightarrow> Inl e
                        | Inr low_ts \<Rightarrow>
                            let overlap = ml - low_ts + 1
                            in if int (op_horizon self) \<ge> overlap then
                                 set_RHS_at model2 handles (overlap - 1) (Finite 1)
                               else Inr model2)))"

text \<open>
  The relaxed encoding: the bound of the history constraint with handle number \<open>overlap\<close>
  (counted from 1, as \<open>enumerate(..., start=1)\<close> does).
\<close>

definition previous_bound :: "CurtailableLoad \<Rightarrow> int \<Rightarrow> int \<Rightarrow> int \<Rightarrow> error + real" where
  "previous_bound self ml mf overlap =
     (let timestep = currentTimestep self;
          width = mf + ml;
          required = replicate (nat ml) (P_El_Curt self) @ replicate (nat mf) (P_El_Nom self);
          start_t = timestep - (width - overlap);
          required1 = (if start_t < 0 then py_slice required 0 start_t else required);
          start_t1 = (if start_t < 0 then 0 else start_t);
          already_done = py_slice (P_El_Schedule self) start_t1 timestep
      in if int (length already_done) + overlap = int (length required1)
         then Inr (sum_list required1 - sum_list already_done)
         else Inl AssertionError)"

fun update_previous ::
  "CurtailableLoad \<Rightarrow> int \<Rightarrow> int \<Rightarrow> int \<Rightarrow> nat list \<Rightarrow> constr list \<Rightarrow> error + constr list" where
  "update_previous self ml mf overlap [] model = Inr model"
| "update_previous self ml mf overlap (h # handles) model =
     (case previous_bound self ml mf overlap of
        Inl e \<Rightarrow> Inl e
      | Inr b \<Rightarrow> update_previous self ml mf (overlap + 1) handles (set_RHS model h (Finite b)))"

text \<open>
  \<open>update_model\<close>. The parent's \<open>update_model\<close> is not among the sources and is taken
  not to touch the constraints of this entity. \<open>min_full + max_low\<close> raises when one of
  them is \<open>None\<close>.
\<close>

definition update_model :: "constr list \<Rightarrow> string \<Rightarrow> CurtailableLoad \<Rightarrow> error + constr list" where
  "update_model model mode self =
     (case (if currentTimestep self \<noteq> 0 \<and> length (constr_previous_state self) > 0
            then update_previous_state model self else Inr model) of
        Inl e \<Rightarrow> Inl e
      | Inr model1 \<Rightarrow>
          if length (constr_previous self) > 0 then
            (case (min_full self, max_low self) of
               (Some mf, Some ml) \<Rightarrow> update_previous self ml mf 1 (constr_previous self) model1
             | _ \<Rightarrow> Inl TypeError)
          else Inr model1)"

subsection \<open>What a model admits\<close>

text \<open>
  The solver is an external collaborator; what it may return is an assignment of the
  variables that respects every variable's bounds and type and every constraint.
\<close>

definition lin_value :: "(var \<Rightarrow> real) \<Rightarrow> (real \<times> var) list \<Rightarrow> real" where
  "lin_value \<sigma> ts = sum_list (map (\<lambda>(c, v). c * \<sigma> v) ts)"

definition satisfies :: "(var \<Rightarrow> real) \<Rightarrow> constr \<Rightarrow> bool" where
  "satisfies \<sigma> c =
     (case sense c of
        GREATER_EQUAL \<Rightarrow> grb_ge (lin_value \<sigma> (lhs c)) (RHS c)
      | LESS_EQUAL \<Rightarrow> grb_le (lin_value \<sigma> (lhs c)) (RHS c))"

definition within_bounds :: "(var \<Rightarrow> real) \<Rightarrow> gvar \<Rightarrow> bool" where
  "within_bounds \<sigma> v =
     (grb_ge (\<sigma> (vid v)) (lb v) \<and> grb_le (\<sigma> (vid v)) (ub v) \<and>
      (vtype v = BINARY \<longrightarrow> \<sigma> (vid v) = 0 \<or> \<sigma> (vid v) = 1))"

definition feasible :: "(var \<Rightarrow> real) \<Rightarrow> CurtailableLoad \<Rightarrow> constr list \<Rightarrow> bool" where
  "feasible \<sigma> self model =
     (list_all (within_bounds \<sigma>) (P_El_vars self) \<and>
      list_all (within_bounds \<sigma>) (P_State_vars self) \<and>
      list_all (satisfies \<sigma>) model)"

subsection \<open>The entity in the rolling horizon\<close>

text \<open>
  Between two optimisations the timer advances and the realised schedules are written
  into the entity; \<open>update_model\<close> then reads them.
\<close>

definition realised :: "CurtailableLoad \<Rightarrow> int \<Rightarrow> real list \<Rightarrow> bool list \<Rightarrow> CurtailableLoad" where
  "realised self timestep powers states =
     self\<lparr>currentTimestep := timestep, P_El_Schedule := powers, P_State_Schedule := states\<rparr>"

text \<open>The right-hand sides the entity's three kinds of handles point at.\<close>

definition history_bounds :: "CurtailableLoad \<Rightarrow> constr list \<Rightarrow> grb list \<times> grb option \<times> grb list" where
  "history_bounds self model =
     (map (\<lambda>h. RHS (model ! h)) (constr_previous_state self),
      map_option (\<lambda>h. RHS (model ! h)) (constr_previous_start self),
      map (\<lambda>h. RHS (model ! h)) (constr_previous self))"

text \<open>
  One use of the entity: construct it, populate an empty model, realise a history, update.
  The result is the entity, the populated model and the updated model.
\<close>

definition rolling_step ::
  "nat \<Rightarrow> nat \<Rightarrow> real \<Rightarrow> real \<Rightarrow> int option \<Rightarrow> int option \<Rightarrow> string \<Rightarrow> int \<Rightarrow> real list \<Rightarrow> bool list
     \<Rightarrow> error + (CurtailableLoad \<times> constr list \<times> constr list)" where
  "rolling_step H T nom curt ml mf mode timestep powers states =
     (case init H T nom curt ml mf of
        Inl e \<Rightarrow> Inl e
      | Inr self0 \<Rightarrow>
          (case populate_model [] mode self0 of
             Inl e \<Rightarrow> Inl e
           | Inr (self1, model1) \<Rightarrow>
               (case update_model model1 mode (realised self1 timestep powers states) of
                  Inl e \<Rightarrow> Inl e
                | Inr model2 \<Rightarrow> Inr (realised self1 timestep powers states, model1, model2))))"


text \<open>
  An updated model restricts the populated one at an assignment that the populated model
  admits and the updated one excludes; \<open>all_at c\<close> gives every variable the value \<open>c\<close>.
\<close>

definition all_at :: "real \<Rightarrow> var \<Rightarrow> real" where
  "all_at c v = c"

definition restricts ::
  "(var \<Rightarrow> real) \<Rightarrow> error + (CurtailableLoad \<times> constr list \<times> constr list) \<Rightarrow> bool" where
  "restricts \<sigma> r =
     (case r of
        Inl e \<Rightarrow> False
      | Inr (self, model1, model2) \<Rightarrow> feasible \<sigma> self model1 \<and> \<not> feasible \<sigma> self model2)"

text \<open>
  The max_low rule on a realised state schedule: among any \<open>max_low + 1\<close> consecutive
  steps before the current timestep, one is at full output.
\<close>

definition respects_max_low :: "bool list \<Rightarrow> int \<Rightarrow> int \<Rightarrow> bool" where
  "respects_max_low schedule timestep ml =
     (\<forall>a \<in> {0..timestep - ml - 1}. \<exists>j \<in> {a..a + ml}. schedule ! nat j)"

section \<open>ExchangeADMM\<close>

subsection \<open>Arrays and floats\<close>

text \<open>
  A one-dimensional numpy array is a list of reals, and the arithmetic on arrays of equal
  shape is elementwise. All arrays of the algorithm are created by the algorithm itself,
  with one entry per timestep of the window. A float threshold may be infinite or not a
  number; the residual norms are taken to be finite.
\<close>

type_synonym vec = "real list"

definition vadd :: "vec \<Rightarrow> vec \<Rightarrow> vec" where
  "vadd a b = map2 (+) a b"

definition vsub :: "vec \<Rightarrow> vec \<Rightarrow> vec" where
  "vsub a b = map2 (-) a b"

definition vneg :: "vec \<Rightarrow> vec" where
  "vneg a = map uminus a"

definition vscale :: "real \<Rightarrow> vec \<Rightarrow> vec" where
  "vscale c a = map (\<lambda>v. c * v) a"

definition vdiv :: "vec \<Rightarrow> real \<Rightarrow> vec" where
  "vdiv a c = map (\<lambda>v. v / c) a"

text \<open>\<open>np.linalg.norm\<close> of a flat array.\<close>

definition linalg_norm :: "vec \<Rightarrow> real" where
  "linalg_norm a = sqrt (sum_list (map (\<lambda>v. v * v) a))"

text \<open>
  The builtin \<open>sum\<close> over the rows of a two-dimensional array: it starts from the
  scalar 0, which numpy broadcasts over a row of the window's length.
\<close>

definition sum_rows :: "nat \<Rightarrow> vec list \<Rightarrow> vec" where
  "sum_rows H rows = foldl vadd (replicate H 0) rows"

datatype pyfloat = Float real | PosInf | NegInf | NaN

fun float_le :: "real \<Rightarrow> pyfloat \<Rightarrow> bool" where
  "float_le v (Float b) = (v \<le> b)"
| "float_le v PosInf = True"
| "float_le v NegInf = False"
| "float_le v NaN = False"

subsection \<open>The algorithm object, its nodes and its state\<close>

text \<open>
  A node carries the mutable pyomo parameters \<open>beta\<close>, \<open>xs_\<close>, \<open>us\<close> and
  \<open>last_p_el_schedules\<close> (field names prefixed, since \<open>xs_\<close> and \<open>us\<close> are not names a
  record field can take without clashing with variables). An entity is represented by what
  the algorithm uses of it: its local objective \<open>get_objective()\<close>, a function of the
  values of its power variables. The window length is \<open>op_horizon'\<close>, the name
  \<open>op_horizon\<close> being the field of the load above.
\<close>

record node_model =
  node_beta :: real
  node_xs :: vec
  node_us :: vec
  node_last_p_el_schedules :: vec

record ExchangeADMM =
  eps_primal :: pyfloat
  eps_dual :: pyfloat
  rho :: real
  max_iterations :: int
  op_horizon' :: nat
  entities :: "(vec \<Rightarrow> real) list"

text \<open>
  The dictionaries \<open>results\<close> and \<open>params\<close> and the nodes, threaded through the
  iterations. A key of \<open>params\<close> that is not present yet is \<open>None\<close>.
\<close>

record admm_state =
  iterations :: "int list"
  r_norms :: "real list"
  s_norms :: "real list"
  params_p_el :: "vec list option"
  params_x :: "vec option"
  params_u :: "vec option"
  nodes :: "node_model list"

subsection \<open>The augmented objective\<close>

text \<open>
  \<open>_add_objective\<close> builds, for the node of entity \<open>i\<close>, an expression over the power
  variables and the node's parameters. Its value for the parameters \<open>node\<close> and the
  values \<open>p\<close> of the power variables is accumulated as the source does, term by term.
\<close>

definition add_objective :: "ExchangeADMM \<Rightarrow> nat \<Rightarrow> node_model \<Rightarrow> vec \<Rightarrow> real" where
  "add_objective self i node p =
     (let H = op_horizon' self;
          obj0 = node_beta node * (entities self ! i) p;
          obj1 = foldl (\<lambda>obj t. obj + rho self / 2 * (p ! t) * (p ! t)) obj0 [0..<H];
          penalty =
            (if i = 0 then
               map (\<lambda>t. - (node_last_p_el_schedules node ! t) - node_xs node ! t - node_us node ! t) [0..<H]
             else
               map (\<lambda>t. - (node_last_p_el_schedules node ! t) + node_xs node ! t + node_us node ! t) [0..<H])
      in foldl (\<lambda>obj t. obj + rho self * (penalty ! t) * (p ! t)) obj1 [0..<H])"

subsection \<open>One iteration\<close>

text \<open>
  The parameters of the previous iteration, or zeros when the key is not present.
\<close>

definition last_p_el :: "ExchangeADMM \<Rightarrow> admm_state \<Rightarrow> vec list" where
  "last_p_el self st =
     (case params_p_el st of
        None \<Rightarrow> replicate (length (entities self)) (replicate (op_horizon' self) 0)
      | Some a \<Rightarrow> a)"

definition last_x :: "ExchangeADMM \<Rightarrow> admm_state \<Rightarrow> vec" where
  "last_x self st = (case params_x st of None \<Rightarrow> replicate (op_horizon' self) 0 | Some a \<Rightarrow> a)"

definition last_u :: "ExchangeADMM \<Rightarrow> admm_state \<Rightarrow> vec" where
  "last_u self st = (case params_u st of None \<Rightarrow> replicate (op_horizon' self) 0 | Some a \<Rightarrow> a)"

text \<open>
  Step 1 writes the last schedule of entity \<open>i\<close>, the signal and the dual accumulator into
  the parameters of node \<open>i\<close>, entry by entry; reading an entry that an array does not have
  raises.
\<close>

definition readable :: "ExchangeADMM \<Rightarrow> admm_state \<Rightarrow> bool" where
  "readable self st =
     list_all (\<lambda>i. list_all (\<lambda>t. i < length (last_p_el self st) \<and>
                                   t < length (last_p_el self st ! i) \<and>
                                   t < length (last_x self st) \<and>
                                   t < length (last_u self st)) [0..<op_horizon' self])
       [0..<length (entities self)]"

definition push :: "ExchangeADMM \<Rightarrow> admm_state \<Rightarrow> nat \<Rightarrow> node_model" where
  "push self st i =
     (nodes st ! i)
       \<lparr>node_xs := map (\<lambda>t. last_x self st ! t) [0..<op_horizon' self],
        node_us := map (\<lambda>t. last_u self st ! t) [0..<op_horizon' self],
        node_last_p_el_schedules := map (\<lambda>t. last_p_el self st ! i ! t) [0..<op_horizon' self]\<rparr>"

text \<open>
  The solver is an external collaborator: \<open>solver i node t\<close> is the value it leaves in
  \<open>p_el_vars[t]\<close> of entity \<open>i\<close> when node \<open>i\<close> is solved with the parameters \<open>node\<close>.
  \<open>extract_pyomo_values\<close> reads these values over the window.
\<close>

type_synonym solver = "nat \<Rightarrow> node_model \<Rightarrow> nat \<Rightarrow> real"

definition p_el_schedules :: "ExchangeADMM \<Rightarrow> solver \<Rightarrow> admm_state \<Rightarrow> vec list" where
  "p_el_schedules self solver st =
     map (\<lambda>i. map (solver i (push self st i)) [0..<op_horizon' self]) [0..<length (entities self)]"

text \<open>Step 2, the incentive signal: \<open>(-p[0] + sum(p[1:])) / len(self._entities)\<close>.\<close>

definition signal :: "ExchangeADMM \<Rightarrow> vec list \<Rightarrow> vec" where
  "signal self p =
     vdiv (vadd (vneg (p ! 0)) (sum_rows (op_horizon' self) (drop 1 p))) (real (length (entities self)))"

text \<open>The dual residual rows: row 0 with the signs of the district, the others after it.\<close>

definition dual_rows :: "ExchangeADMM \<Rightarrow> vec list \<Rightarrow> vec list \<Rightarrow> vec \<Rightarrow> vec \<Rightarrow> vec list" where
  "dual_rows self p lastp lastx x =
     vscale (- rho self) (vsub (vadd (vadd (vneg (p ! 0)) (lastp ! 0)) lastx) x) #
     map (\<lambda>i. vscale (- rho self) (vsub (vadd (vsub (p ! i) (lastp ! i)) lastx) x))
       [1..<length (entities self)]"

text \<open>The sign of entity \<open>i\<close> in the residuals: negative for the district, entity 0.\<close>

definition residual_sign :: "nat \<Rightarrow> real" where
  "residual_sign i = (if i = 0 then - 1 else 1)"

text \<open>
  Modelled from the spec: the parent class \<open>IterationAlgorithm\<close> is not among the sources.
  Section 4.1: every iteration step appends exactly one entry to the iteration result; the
  parent's step appends the iteration index, counted from 1.
\<close>

definition IterationAlgorithm_iteration :: "admm_state \<Rightarrow> admm_state" where
  "IterationAlgorithm_iteration st =
     st\<lparr>iterations := iterations st @ [if iterations st = [] then 1 else last (iterations st) + 1]\<rparr>"

definition iteration :: "ExchangeADMM \<Rightarrow> solver \<Rightarrow> admm_state \<Rightarrow> error + admm_state" where
  "iteration self solver st0 =
     (let st = IterationAlgorithm_iteration st0;
          n = length (entities self)
      in if \<not> readable self st then Inl IndexError
         else
           let p = p_el_schedules self solver st
           in if p = [] then Inl IndexError
              else
                let x = signal self p;
                    r = sqrt (real n) * linalg_norm x;
                    s = dual_rows self p (last_p_el self st) (last_x self st) x
                in Inr (st\<lparr>r_norms := r_norms st @ [r],
                           s_norms := s_norms st @ [linalg_norm (concat s)],
                           params_p_el := Some p,
                           params_x := Some x,
                           params_u := Some (vadd (last_u self st) x),
                           nodes := map (push self st) [0..<n]\<rparr>))"

text \<open>
  The shape of the arrays in \<open>params\<close>, where present: one row per entity and one entry
  per timestep. The arrays the algorithm creates have it.
\<close>

definition well_shaped :: "ExchangeADMM \<Rightarrow> admm_state \<Rightarrow> bool" where
  "well_shaped self st =
     ((case params_p_el st of
         None \<Rightarrow> True
       | Some a \<Rightarrow> length a = length (entities self) \<and>
                  list_all (\<lambda>row. length row = op_horizon' self) a) \<and>
      (case params_x st of None \<Rightarrow> True | Some a \<Rightarrow> length a = op_horizon' self) \<and>
      (case params_u st of None \<Rightarrow> True | Some a \<Rightarrow> length a = op_horizon' self))"

subsection \<open>The termination test and the loop\<close>

text \<open>
  Modelled from the spec: the parent's termination test is the iteration cap (section 4.1:
  the loop stops on the iteration count reaching \<open>maxIterations\<close>); the iteration count is
  the last entry of \<open>results["iterations"]\<close>.
\<close>

definition IterationAlgorithm_is_last_iteration :: "ExchangeADMM \<Rightarrow> admm_state \<Rightarrow> error + bool" where
  "IterationAlgorithm_is_last_iteration self st =
     (if iterations st = [] then Inl IndexError
      else Inr (last (iterations st) \<ge> max_iterations self))"

text \<open>
  \<open>_is_last_iteration\<close> of the source: the parent's test first; then the last residual
  norms against the thresholds, \<open>and\<close> evaluating its second operand only when the first
  holds, and \<open>[-1]\<close> raising on an empty list.
\<close>

definition is_last_iteration :: "ExchangeADMM \<Rightarrow> admm_state \<Rightarrow> error + bool" where
  "is_last_iteration self st =
     (case IterationAlgorithm_is_last_iteration self st of
        Inl e \<Rightarrow> Inl e
      | Inr True \<Rightarrow> Inr True
      | Inr False \<Rightarrow>
          if r_norms st = [] then Inl IndexError
          else if float_le (last (r_norms st)) (eps_primal self) then
            (if s_norms st = [] then Inl IndexError
             else Inr (float_le (last (s_norms st)) (eps_dual self)))
          else Inr False)"

text \<open>
  \<open>_presolve\<close>: empty results and parameters; one node per entity, with the other
  parameters at their initial value 0. The source sets \<open>beta\<close> of the node of each entity
  to \<open>self._get_beta(params, entity)\<close>; \<open>_get_beta\<close> belongs to the parent class, which is
  not among the sources, so its result for the entity at position \<open>i\<close> is the parameter
  \<open>get_beta i\<close>.
\<close>

definition presolve :: "ExchangeADMM \<Rightarrow> (nat \<Rightarrow> real) \<Rightarrow> admm_state" where
  "presolve self get_beta =
     \<lparr>iterations = [], r_norms = [], s_norms = [],
      params_p_el = None, params_x = None, params_u = None,
      nodes = map (\<lambda>i. \<lparr>node_beta = get_beta i,
                         node_xs = replicate (op_horizon' self) 0,
                         node_us = replicate (op_horizon' self) 0,
                         node_last_p_el_schedules = replicate (op_horizon' self) 0\<rparr>)
                [0..<length (entities self)]\<rparr>"

text \<open>
  Modelled from the spec: the loop of the parent class \<open>IterationAlgorithm\<close>, which is
  not among the sources. Section 4.1: after the presolve, repeatedly one iteration step and
  then the termination test; the loop stops when the test holds. An exception ends the run.
\<close>

definition current_iteration :: "admm_state \<Rightarrow> int" where
  "current_iteration st = (if iterations st = [] then 0 else last (iterations st))"

function solve_loop :: "ExchangeADMM \<Rightarrow> solver \<Rightarrow> admm_state \<Rightarrow> error + admm_state" where
  "solve_loop self solver st =
     (case iteration self solver st of
        Inl e \<Rightarrow> Inl e
      | Inr st1 \<Rightarrow>
          (case is_last_iteration self st1 of
             Inl e \<Rightarrow> Inl e
           | Inr b \<Rightarrow> if b then Inr st1 else solve_loop self solver st1))"
  by pat_completeness auto
termination
proof (relation "measure (\<lambda>(self, solver, st). nat (max_iterations self - current_iteration st))")
  show "wf (measure (\<lambda>(self, solver, st). nat (max_iterations self - current_iteration st)))"
    by simp
next
  fix self solver st st1 b
  assume it: "iteration self solver st = Inr st1"
    and test: "is_last_iteration self st1 = Inr b" and "\<not> b"
  from it have "current_iteration st1 = current_iteration st + 1"
    by (auto simp: iteration_def IterationAlgorithm_iteration_def current_iteration_def Let_def
             split: if_splits)
  moreover from test \<open>\<not> b\<close> have "current_iteration st1 < max_iterations self"
    by (auto simp: is_last_iteration_def IterationAlgorithm_is_last_iteration_def
                   current_iteration_def split: if_splits sum.splits bool.splits)
  ultimately show "((self, solver, st1), (self, solver, st))
      \<in> measure (\<lambda>(self, solver, st). nat (max_iterations self - current_iteration st))"
    by simp
qed

definition solve :: "ExchangeADMM \<Rightarrow> solver \<Rightarrow> (nat \<Rightarrow> real) \<Rightarrow> error + admm_state" where
  "solve self solver get_beta = solve_loop self solver (presolve self get_beta)"

subsection \<open>The augmentation as the specification words it\<close>

text \<open>
  Section 4.3 of the specification: the local objective plus \<open>rho/2\<close> times the squared
  norm of the power vector plus \<open>rho\<close> times the inner product of the signed sum of signal
  and dual accumulator with the power vector, the sign being negative for entity 0.
\<close>

definition objective_spec :: "ExchangeADMM \<Rightarrow> nat \<Rightarrow> vec \<Rightarrow> vec \<Rightarrow> vec \<Rightarrow> real" where
  "objective_spec self i x u p =
     (entities self ! i) p
     + rho self / 2 * (\<Sum>t<op_horizon' self. p ! t * p ! t)
     + rho self * (\<Sum>t<op_horizon' self. ((if i = 0 then - 1 else 1) * (x ! t + u ! t)) * p ! t)"

section \<open>Properties of CurtailableLoad\<close>

declare count_low.simps [simp del] count_full.simps [simp del] solve_loop.simps [simp del]

text \<open>
  C8. Constructing a CurtailableLoad fails exactly when the min_full/max_low configuration
  is invalid: one of the two is given without the other, or min_full is below 1, or max_low
  is below 0. Every other combination of arguments yields an entity.
\<close>

theorem init_fails_iff_invalid:
  "(\<exists>e. init H T nom curt ml mf = Inl e) \<longleftrightarrow>
     ((ml = None) \<noteq> (mf = None)) \<or> (\<exists>m. mf = Some m \<and> m < 1) \<or> (\<exists>m. ml = Some m \<and> m < 0)"
  by (cases ml; cases mf) (auto simp: init_def)

theorem init_fails_iff_invalid_witness:
  "(\<exists>e. init 6 24 10 (1/5) (Some 2) None = Inl e) \<and>
   (\<exists>e. init 6 24 10 (1/5) (Some 2) (Some 0) = Inl e) \<and>
   (\<exists>e. init 6 24 10 (1/5) (Some (-1)) (Some 2) = Inl e) \<and>
   \<not> (\<exists>e. init 6 24 10 (1/5) (Some 2) (Some 2) = Inl e) \<and>
   \<not> (\<exists>e. init 6 24 10 (1/5) None None = Inl e)"
  using init_fails_iff_invalid [of 6 24 10 "1/5" "Some 2" None]
        init_fails_iff_invalid [of 6 24 10 "1/5" "Some 2" "Some 0"]
        init_fails_iff_invalid [of 6 24 10 "1/5" "Some (-1)" "Some 2"]
        init_fails_iff_invalid [of 6 24 10 "1/5" "Some 2" "Some 2"]
        init_fails_iff_invalid [of 6 24 10 "1/5" None None]
  by simp


lemma feasible_fixes_var:
  "list_all (within_bounds \<sigma>) vs \<Longrightarrow> v \<in> set vs \<Longrightarrow> lb v = Finite a \<Longrightarrow> ub v = Finite a
     \<Longrightarrow> \<sigma> (vid v) = a"
  by (auto simp: list_all_iff within_bounds_def)

text \<open>
  C10. For a CurtailableLoad constructed with max_low = 0, \<open>populate_model\<close> in convex and
  in integer mode leaves the model without any new constraint, creates no binary state
  variable and no history handle, and gives every power variable of the window the lower
  bound P_El_Nom (the upper bound being P_El_Nom too), so that every admissible assignment
  is at nominal power at every timestep of the window.
\<close>

theorem populate_model_max_low_zero:
  assumes "init H T nom curt (Some 0) mf = Inr self"
    and "mode = ''convex'' \<or> mode = ''integer''"
  shows "\<exists>self'. populate_model model mode self = Inr (self', model) \<and>
           P_State_vars self' = [] \<and> constr_previous_state self' = [] \<and>
           constr_previous self' = [] \<and> constr_previous_start self' = None \<and>
           P_El_vars self' =
             map (\<lambda>t. \<lparr>vid = P_El t, lb = Finite nom, ub = Finite nom, vtype = CONTINUOUS\<rparr>) [0..<H] \<and>
           (\<forall>\<sigma>. feasible \<sigma> self' model \<longrightarrow> (\<forall>t<H. \<sigma> (P_El t) = nom))"
proof -
  from assms(1) have self: "max_low self = Some 0" "P_El_Nom self = nom" "op_horizon self = H"
    "P_State_vars self = []" "constr_previous_state self = []" "constr_previous self = []"
    "constr_previous_start self = None"
    by (auto simp: init_def split: if_splits)
  define self' where "self' = self\<lparr>P_El_vars :=
      map (\<lambda>t. \<lparr>vid = P_El t, lb = Finite nom, ub = Finite nom, vtype = CONTINUOUS\<rparr>) [0..<H]\<rparr>"
  have pop: "populate_model model mode self = Inr (self', model)"
    using assms(2) self
    by (auto simp: populate_model_def ElectricalEntity_populate_model_def Let_def self'_def o_def)
  have "\<sigma> (P_El t) = nom" if f: "feasible \<sigma> self' model" and t: "t < H" for \<sigma> t
  proof -
    let ?v = "\<lparr>vid = P_El t, lb = Finite nom, ub = Finite nom, vtype = CONTINUOUS\<rparr>"
    have "?v \<in> set (P_El_vars self')" using t by (auto simp: self'_def)
    moreover have "list_all (within_bounds \<sigma>) (P_El_vars self')" using f by (simp add: feasible_def)
    ultimately show ?thesis using feasible_fixes_var[of \<sigma> "P_El_vars self'" ?v nom] by simp
  qed
  then show ?thesis using pop self by (auto simp: self'_def)
qed

theorem populate_model_max_low_zero_witness:
  "\<exists>self self'. init 2 4 10 (1/5) (Some 0) (Some 1) = Inr self \<and>
     populate_model [] ''integer'' self = Inr (self', []) \<and>
     P_El_vars self' = [\<lparr>vid = P_El 0, lb = Finite 10, ub = Finite 10, vtype = CONTINUOUS\<rparr>,
                        \<lparr>vid = P_El 1, lb = Finite 10, ub = Finite 10, vtype = CONTINUOUS\<rparr>]"
proof -
  obtain self where s: "init 2 4 10 (1/5) (Some 0) (Some 1) = Inr self"
    by (simp add: init_def)
  from populate_model_max_low_zero[OF s, of "''integer''" "[]"] 
  show ?thesis using s by (auto simp: upt_rec numeral_2_eq_2)
qed


lemma py_get_in_range:
  "0 \<le> i \<Longrightarrow> i < int (length xs) \<Longrightarrow> py_get xs i = Inr (xs ! nat i)"
  by (simp add: py_get_def py_index_def)

lemma low_run_bounded:
  assumes rule: "respects_max_low schedule timestep ml"
    and k: "0 \<le> k" "k \<le> timestep"
    and low: "\<forall>j \<in> {timestep - k..timestep - 1}. \<not> schedule ! nat j"
    and ml: "0 \<le> ml"
  shows "k \<le> ml"
proof (rule ccontr)
  assume "\<not> k \<le> ml"
  then have "timestep - ml - 1 \<in> {0..timestep - ml - 1}" using k by simp
  with rule obtain j where j: "j \<in> {timestep - ml - 1..timestep - ml - 1 + ml}" "schedule ! nat j"
    unfolding respects_max_low_def by blast
  then have "j \<in> {timestep - k..timestep - 1}" using \<open>\<not> k \<le> ml\<close> by simp
  with low j(2) show False by blast
qed

lemma count_low_ok:
  assumes "respects_max_low schedule timestep ml" "0 \<le> ml"
    and "1 \<le> k" "k \<le> timestep" "timestep \<le> int (length schedule)"
    and "\<forall>j \<in> {timestep - k..timestep - 1}. \<not> schedule ! nat j"
  shows "\<exists>low_ts. count_low schedule timestep ml k = Inr low_ts \<and> k \<le> low_ts \<and> low_ts \<le> ml"
  using assms
proof (induction schedule timestep ml k rule: count_low.induct)
  case (1 schedule timestep ml low_ts)
  have bound: "low_ts \<le> ml"
    using low_run_bounded[OF "1.prems"(1) _ "1.prems"(4) "1.prems"(6) "1.prems"(2)] "1.prems"(3) by simp
  show ?case
  proof (cases "timestep - low_ts - 1 \<ge> 0")
    case False
    then show ?thesis using bound by (subst count_low.simps) simp
  next
    case True
    then have get: "py_get schedule (timestep - low_ts - 1) = Inr (schedule ! nat (timestep - low_ts - 1))"
      using "1.prems"(5) "1.prems"(3) by (intro py_get_in_range) auto
    show ?thesis
    proof (cases "schedule ! nat (timestep - low_ts - 1)")
      case True
      then show ?thesis using \<open>timestep - low_ts - 1 \<ge> 0\<close> get bound
        by (subst count_low.simps) simp
    next
      case False
      have low': "\<forall>j \<in> {timestep - (low_ts + 1)..timestep - 1}. \<not> schedule ! nat j"
      proof
        fix j assume "j \<in> {timestep - (low_ts + 1)..timestep - 1}"
        then have "j = timestep - low_ts - 1 \<or> j \<in> {timestep - low_ts..timestep - 1}" by auto
        then show "\<not> schedule ! nat j" using False "1.prems"(6) by auto
      qed
      have "\<exists>r. count_low schedule timestep ml (low_ts + 1) = Inr r \<and> low_ts + 1 \<le> r \<and> r \<le> ml"
        using "1.IH"[OF True get False bound "1.prems"(1) "1.prems"(2) _ _ "1.prems"(5) low']
          "1.prems"(3) True by simp
      then show ?thesis using True get False bound
        by (subst count_low.simps) auto
    qed
  qed
qed

text \<open>
  C9. When the realised state schedule before the current timestep respects the max_low
  rule and the step before the window was below nominal, the backward scan of
  \<open>update_model\<close> returns a count between 1 and max_low, and the block of the scan does
  not raise an AssertionError: the assertion in the loop never fails.
\<close>

theorem scan_assertion_holds:
  assumes "max_low self = Some ml" "0 \<le> ml"
    and "0 < currentTimestep self" "currentTimestep self \<le> int (length (P_State_Schedule self))"
    and "respects_max_low (P_State_Schedule self) (currentTimestep self) ml"
    and "\<not> P_State_Schedule self ! nat (currentTimestep self - 1)"
  shows "(\<exists>low_ts. count_low (P_State_Schedule self) (currentTimestep self) ml 1 = Inr low_ts
            \<and> 1 \<le> low_ts \<and> low_ts \<le> ml) \<and>
         update_previous_state model self \<noteq> Inl AssertionError"
proof -
  let ?t = "currentTimestep self" and ?s = "P_State_Schedule self"
  have low: "\<forall>j \<in> {?t - 1..?t - 1}. \<not> ?s ! nat j" using assms(6) by simp
  from count_low_ok[OF assms(5) assms(2) _ _ assms(4) low] assms(3)
  obtain low_ts where c: "count_low ?s ?t ml 1 = Inr low_ts" "1 \<le> low_ts" "low_ts \<le> ml"
    by auto
  have get: "py_get ?s (?t - 1) = Inr False"
    using py_get_in_range[of "?t - 1" ?s] assms(3,4,6) by simp
  have "update_previous_state model self \<noteq> Inl AssertionError"
    using c get assms(1)
    by (auto simp: update_previous_state_def Let_def set_RHS_at_def py_get_def py_index_def
             split: sum.splits option.splits)
  then show ?thesis using c by blast
qed


theorem scan_assertion_holds_witness:
  "(\<exists>low_ts. count_low [True, False, False] 3 2 1 = Inr low_ts \<and> 1 \<le> low_ts \<and> low_ts \<le> 2) \<and>
   update_previous_state []
     \<lparr> P_El_Nom = 10, max_curt = 1/5, max_low = Some 2, min_full = Some 2,
       P_El_Curt = 2, op_horizon = 6, currentTimestep = 3, P_El_Schedule = [10, 2, 2],
       P_State_Schedule = [True, False, False], P_El_vars = [], P_State_vars = [],
       constr_previous_state = [], constr_previous = [], constr_previous_start = None \<rparr>
     \<noteq> Inl AssertionError"
proof -
  have "respects_max_low [True, False, False] 3 2"
    by (auto simp: respects_max_low_def intro: bexI[of _ 0])
  then show ?thesis
    using scan_assertion_holds[of
      "\<lparr> P_El_Nom = 10, max_curt = 1/5, max_low = Some 2, min_full = Some 2,
         P_El_Curt = 2, op_horizon = 6, currentTimestep = 3, P_El_Schedule = [10, 2, 2],
         P_State_Schedule = [True, False, False], P_El_vars = [], P_State_vars = [],
         constr_previous_state = [], constr_previous = [], constr_previous_start = None \<rparr>" 2 "[]"]
    by simp
qed

subsection \<open>The rolling-horizon example\<close>













section \<open>Properties of ExchangeADMM\<close>

lemma foldl_add_upt: "foldl (\<lambda>obj t. obj + f t) a [0..<H] = (a::real) + (\<Sum>t<H. f t)"
  by (induction H) simp_all

text \<open>
  C1 (as amended). In every iteration the objective of the node of entity \<open>i\<close>, with the
  parameters the iteration has pushed into it, is \<open>beta\<close> times the local objective, plus
  \<open>rho/2\<close> times the squared norm of the power vector, plus \<open>rho\<close> times the inner product
  of the power vector with \<open>-lastP[i] + sign(i) * (x + u)\<close>, where \<open>sign\<close> is negative for
  entity 0 and positive for every other entity. Beside the signal and the dual accumulator,
  the last schedule of the entity is part of the linear term.
\<close>

theorem add_objective_expanded:
  "add_objective self i (push self st i) p =
     node_beta (nodes st ! i) * (entities self ! i) p
     + rho self / 2 * (\<Sum>t<op_horizon' self. p ! t * p ! t)
     + rho self * (\<Sum>t<op_horizon' self.
         (- (last_p_el self st ! i ! t)
          + (if i = 0 then - 1 else 1) * (last_x self st ! t + last_u self st ! t)) * p ! t)"
proof -
  let ?H = "op_horizon' self" and ?n = "push self st i"
  let ?sg = "if i = 0 then - 1 else (1::real)"
  let ?pen = "\<lambda>t. - (last_p_el self st ! i ! t) + ?sg * (last_x self st ! t + last_u self st ! t)"
  have par: "node_xs (push self st j) ! t = last_x self st ! t"
    "node_us (push self st j) ! t = last_u self st ! t"
    "node_last_p_el_schedules (push self st j) ! t = last_p_el self st ! j ! t" if "t < ?H" for t j
    using that by (simp_all add: push_def)
  have beta: "node_beta ?n = node_beta (nodes st ! i)" by (simp add: push_def)
  have unfolded: "add_objective self i ?n p =
      node_beta ?n * (entities self ! i) p
      + (\<Sum>t<?H. rho self / 2 * (p ! t) * (p ! t))
      + (\<Sum>t<?H. rho self *
           ((if i = 0 then
               map (\<lambda>t. - (node_last_p_el_schedules ?n ! t) - node_xs ?n ! t - node_us ?n ! t) [0..<?H]
             else
               map (\<lambda>t. - (node_last_p_el_schedules ?n ! t) + node_xs ?n ! t + node_us ?n ! t) [0..<?H]) ! t)
           * (p ! t))"
    unfolding add_objective_def Let_def foldl_add_upt ..
  have quad: "(\<Sum>t<?H. rho self / 2 * (p ! t) * (p ! t)) = rho self / 2 * (\<Sum>t<?H. p ! t * p ! t)"
    by (simp add: sum_distrib_left mult.assoc)
  have pen: "(\<Sum>t<?H. rho self *
           ((if i = 0 then
               map (\<lambda>t. - (node_last_p_el_schedules ?n ! t) - node_xs ?n ! t - node_us ?n ! t) [0..<?H]
             else
               map (\<lambda>t. - (node_last_p_el_schedules ?n ! t) + node_xs ?n ! t + node_us ?n ! t) [0..<?H]) ! t)
           * (p ! t))
         = (\<Sum>t<?H. rho self * (?pen t * p ! t))"
    by (rule sum.cong) (auto simp: par algebra_simps)
  have dist: "(\<Sum>t<?H. rho self * (?pen t * p ! t)) = rho self * (\<Sum>t<?H. ?pen t * p ! t)"
    by (simp only: sum_distrib_left)
  show ?thesis
    unfolding unfolded quad pen dist beta ..
qed

text \<open>
  C1 as stated fails: with a last schedule different from zero the objective of the source
  differs from the augmentation without the schedule term.
\<close>

theorem add_objective_has_schedule_term:
  "add_objective
     \<lparr>eps_primal = Float (1/10), eps_dual = Float 1, rho = 2, max_iterations = 10,
      op_horizon' = 1, entities = [\<lambda>p. 0, \<lambda>p. 0]\<rparr> 1
     (push \<lparr>eps_primal = Float (1/10), eps_dual = Float 1, rho = 2, max_iterations = 10,
            op_horizon' = 1, entities = [\<lambda>p. 0, \<lambda>p. 0]\<rparr>
        \<lparr>iterations = [1], r_norms = [1], s_norms = [1], params_p_el = Some [[0], [1]],
         params_x = Some [0], params_u = Some [0],
         nodes = [\<lparr>node_beta = 1, node_xs = [0], node_us = [0], node_last_p_el_schedules = [0]\<rparr>,
                  \<lparr>node_beta = 1, node_xs = [0], node_us = [0], node_last_p_el_schedules = [0]\<rparr>]\<rparr> 1)
     [1]
   \<noteq> objective_spec
       \<lparr>eps_primal = Float (1/10), eps_dual = Float 1, rho = 2, max_iterations = 10,
        op_horizon' = 1, entities = [\<lambda>p. 0, \<lambda>p. 0]\<rparr> 1 [0] [0] [1]"
  by (simp add: add_objective_def push_def objective_spec_def last_p_el_def last_x_def last_u_def)

theorem add_objective_expanded_witness:
  "add_objective
     \<lparr>eps_primal = Float (1/10), eps_dual = Float 1, rho = 2, max_iterations = 10,
      op_horizon' = 1, entities = [\<lambda>p. 0, \<lambda>p. 0]\<rparr> 0
     (push \<lparr>eps_primal = Float (1/10), eps_dual = Float 1, rho = 2, max_iterations = 10,
            op_horizon' = 1, entities = [\<lambda>p. 0, \<lambda>p. 0]\<rparr>
        \<lparr>iterations = [1], r_norms = [1], s_norms = [1], params_p_el = Some [[3], [1]],
         params_x = Some [1], params_u = Some [1],
         nodes = [\<lparr>node_beta = 1, node_xs = [0], node_us = [0], node_last_p_el_schedules = [0]\<rparr>,
                  \<lparr>node_beta = 1, node_xs = [0], node_us = [0], node_last_p_el_schedules = [0]\<rparr>]\<rparr> 0)
     [1] = - 9"
  using add_objective_expanded[of
     "\<lparr>eps_primal = Float (1/10), eps_dual = Float 1, rho = 2, max_iterations = 10,
      op_horizon' = 1, entities = [\<lambda>p. 0, \<lambda>p. 0]\<rparr>" 0
     "\<lparr>iterations = [1], r_norms = [1], s_norms = [1], params_p_el = Some [[3], [1]],
         params_x = Some [1], params_u = Some [1],
         nodes = [\<lparr>node_beta = 1, node_xs = [0], node_us = [0], node_last_p_el_schedules = [0]\<rparr>,
                  \<lparr>node_beta = 1, node_xs = [0], node_us = [0], node_last_p_el_schedules = [0]\<rparr>]\<rparr>" "[1]"]
  by (simp add: last_p_el_def last_x_def last_u_def)

lemma last_after_base [simp]:
  "last_p_el self (IterationAlgorithm_iteration st) = last_p_el self st"
  "last_x self (IterationAlgorithm_iteration st) = last_x self st"
  "last_u self (IterationAlgorithm_iteration st) = last_u self st"
  "push self (IterationAlgorithm_iteration st) = push self st"
  "p_el_schedules self solver (IterationAlgorithm_iteration st) = p_el_schedules self solver st"
  "r_norms (IterationAlgorithm_iteration st) = r_norms st"
  "s_norms (IterationAlgorithm_iteration st) = s_norms st"
  by (simp_all add: IterationAlgorithm_iteration_def last_p_el_def last_x_def last_u_def
        push_def p_el_schedules_def fun_eq_iff)

lemma well_shaped_lengths:
  assumes "well_shaped self st"
  shows "length (last_p_el self st) = length (entities self)"
    "list_all (\<lambda>row. length row = op_horizon' self) (last_p_el self st)"
    "length (last_x self st) = op_horizon' self"
    "length (last_u self st) = op_horizon' self"
  using assms
  by (auto simp: well_shaped_def last_p_el_def last_x_def last_u_def list_all_iff
           split: option.splits)

lemma last_params:
  "t < op_horizon' self \<Longrightarrow>
     last_u self st ! t = (case params_u st of None \<Rightarrow> 0 | Some a \<Rightarrow> a ! t)"
  "t < op_horizon' self \<Longrightarrow>
     last_x self st ! t = (case params_x st of None \<Rightarrow> 0 | Some a \<Rightarrow> a ! t)"
  "i < length (entities self) \<Longrightarrow> t < op_horizon' self \<Longrightarrow>
     last_p_el self st ! i ! t = (case params_p_el st of None \<Rightarrow> 0 | Some a \<Rightarrow> a ! i ! t)"
  by (simp_all add: last_p_el_def last_x_def last_u_def split: option.splits)

lemma well_shaped_readable: "well_shaped self st \<Longrightarrow> readable self (IterationAlgorithm_iteration st)"
  using well_shaped_lengths[of self st] by (auto simp: readable_def list_all_iff)

lemma well_shaped_row:
  "well_shaped self st \<Longrightarrow> i < length (entities self) \<Longrightarrow> length (last_p_el self st ! i) = op_horizon' self"
  using well_shaped_lengths[of self st] by (auto simp: list_all_iff)

lemma presolve_well_shaped: "well_shaped self (presolve self get_beta)"
  by (simp add: well_shaped_def presolve_def)

lemma p_el_schedules_shape:
  "length (p_el_schedules self solver st) = length (entities self)"
  "i < length (entities self) \<Longrightarrow> length (p_el_schedules self solver st ! i) = op_horizon' self"
  "i < length (entities self) \<Longrightarrow> t < op_horizon' self \<Longrightarrow>
     p_el_schedules self solver st ! i ! t = solver i (push self st i) t"
  by (simp_all add: p_el_schedules_def)

lemma sum_rows_nth:
  assumes "\<forall>row \<in> set rows. length row = H" "t < H"
  shows "length (sum_rows H rows) = H \<and> sum_rows H rows ! t = (\<Sum>row\<leftarrow>rows. row ! t)"
proof -
  have "length (foldl vadd acc rows) = H \<and>
        foldl vadd acc rows ! t = acc ! t + (\<Sum>row\<leftarrow>rows. row ! t)" if "length acc = H" for acc
    using assms(1) that
  proof (induction rows arbitrary: acc)
    case Nil
    then show ?case by simp
  next
    case (Cons row rows)
    have "length (vadd acc row) = H" using Cons.prems by (simp add: vadd_def)
    moreover have "vadd acc row ! t = acc ! t + row ! t"
      using Cons.prems assms(2) by (simp add: vadd_def)
    ultimately show ?case using Cons.IH[of "vadd acc row"] Cons.prems by simp
  qed
  from this[of "replicate H 0"] assms(2) show ?thesis by (simp add: sum_rows_def)
qed

lemma signal_nth:
  assumes "entities self \<noteq> []" "t < op_horizon' self"
  shows "length (signal self (p_el_schedules self solver st)) = op_horizon' self"
    and "signal self (p_el_schedules self solver st) ! t =
       (- (p_el_schedules self solver st ! 0 ! t)
        + (\<Sum>i = 1..<length (entities self). p_el_schedules self solver st ! i ! t))
       / real (length (entities self))"
proof -
  let ?p = "p_el_schedules self solver st" and ?H = "op_horizon' self" and ?n = "length (entities self)"
  have n: "0 < ?n" using assms(1) by simp
  have rows: "\<forall>row \<in> set (drop 1 ?p). length row = ?H"
    by (auto simp: p_el_schedules_def dest!: in_set_dropD)
  have d: "drop 1 ?p = map (\<lambda>i. ?p ! i) [1..<?n]"
    by (intro nth_equalityI) (simp_all add: p_el_schedules_shape)
  have s: "length (sum_rows ?H (drop 1 ?p)) = ?H"
    "sum_rows ?H (drop 1 ?p) ! t = (\<Sum>i = 1..<?n. ?p ! i ! t)"
  proof -
    have e: "(\<Sum>row\<leftarrow>drop 1 ?p. row ! t) = (\<Sum>i = 1..<?n. ?p ! i ! t)"
      by (subst d) (simp add: o_def interv_sum_list_conv_sum_set_nat)
    from sum_rows_nth[OF rows assms(2)] show "length (sum_rows ?H (drop 1 ?p)) = ?H"
      "sum_rows ?H (drop 1 ?p) ! t = (\<Sum>i = 1..<?n. ?p ! i ! t)"
      unfolding e by blast+
  qed
  have l0: "length (?p ! 0) = ?H" using n by (simp add: p_el_schedules_shape)
  show "length (signal self ?p) = ?H"
    using s l0 by (simp add: signal_def vdiv_def vadd_def vneg_def)
  show "signal self ?p ! t = (- (?p ! 0 ! t) + (\<Sum>i = 1..<?n. ?p ! i ! t)) / real ?n"
    using assms(2) s l0 by (simp add: signal_def vdiv_def vadd_def vneg_def)
qed


lemma iteration_result:
  assumes "well_shaped self st" "entities self \<noteq> []"
  shows "iteration self solver st =
     Inr ((IterationAlgorithm_iteration st)\<lparr>
        r_norms := r_norms st @ [sqrt (real (length (entities self)))
                                 * linalg_norm (signal self (p_el_schedules self solver st))],
        s_norms := s_norms st @ [linalg_norm (concat (dual_rows self (p_el_schedules self solver st)
                     (last_p_el self st) (last_x self st) (signal self (p_el_schedules self solver st))))],
        params_p_el := Some (p_el_schedules self solver st),
        params_x := Some (signal self (p_el_schedules self solver st)),
        params_u := Some (vadd (last_u self st) (signal self (p_el_schedules self solver st))),
        nodes := map (push self st) [0..<length (entities self)]\<rparr>)"
proof -
  have "p_el_schedules self solver st \<noteq> []"
    using assms(2) by (simp add: p_el_schedules_def)
  then show ?thesis
    using well_shaped_readable[OF assms(1)]
    by (simp add: iteration_def Let_def cong: map_cong)
qed

text \<open>
  C2. An iteration from a well-shaped state with at least one entity returns; the stored
  schedules are the freshly extracted values of the solver, one row per entity; the stored
  signal is \<open>(-p[0] + sum of p[i] for i \<ge> 1) / numEntities\<close> at every timestep of the
  window; the stored dual accumulator is the one stored before the iteration (zero when
  none is stored yet) plus the new signal.
\<close>

theorem iteration_updates_signal:
  assumes "well_shaped self st" "entities self \<noteq> []"
  shows "\<exists>st' p x' u'.
           iteration self solver st = Inr st' \<and>
           params_p_el st' = Some p \<and> params_x st' = Some x' \<and> params_u st' = Some u' \<and>
           length p = length (entities self) \<and> length x' = op_horizon' self \<and>
           length u' = op_horizon' self \<and>
           (\<forall>t<op_horizon' self.
              (\<forall>i<length (entities self). length (p ! i) = op_horizon' self \<and>
                                          p ! i ! t = solver i (push self st i) t) \<and>
              x' ! t = (- (p ! 0 ! t) + (\<Sum>i = 1..<length (entities self). p ! i ! t))
                       / real (length (entities self)) \<and>
              u' ! t = (case params_u st of None \<Rightarrow> 0 | Some u \<Rightarrow> u ! t) + x' ! t)"
proof -
  let ?p = "p_el_schedules self solver st" and ?H = "op_horizon' self"
  let ?x = "signal self ?p" and ?u = "vadd (last_u self st) (signal self ?p)"
  have lu: "length (last_u self st) = ?H" by (rule well_shaped_lengths(4)[OF assms(1)])
  have lx: "length ?x = ?H"
  proof (cases "?H = 0")
    case True
    then show ?thesis by (simp add: signal_def vdiv_def vadd_def vneg_def p_el_schedules_def
          nth_append assms(2))
  next
    case False
    then show ?thesis using signal_nth(1)[OF assms(2), of 0 solver st] by simp
  qed
  have "length ?u = ?H" using lu lx by (simp add: vadd_def)
  moreover have "?u ! t = (case params_u st of None \<Rightarrow> 0 | Some u \<Rightarrow> u ! t) + ?x ! t"
    if "t < ?H" for t
    using that lu lx by (simp add: vadd_def last_params(1))
  ultimately show ?thesis
    using iteration_result[OF assms, of solver] lx signal_nth(2)[OF assms(2), of _ solver st]
    by (auto simp: p_el_schedules_shape)
qed


lemma sum_list_squares_nth:
  "length a = H \<Longrightarrow> sum_list (map (\<lambda>v. v * v) a) = (\<Sum>t<H. a ! t * (a ! t :: real))"
  by (simp add: sum_list_sum_nth atLeast0LessThan)

lemma sum_list_squares_concat:
  "sum_list (map (\<lambda>v. v * v) (concat rows)) = (\<Sum>row\<leftarrow>rows. sum_list (map (\<lambda>v. (v::real) * v) row))"
  by (induction rows) simp_all

lemma dual_rows_as_map:
  assumes "entities self \<noteq> []"
  shows "dual_rows self p lastp lastx x =
     map (\<lambda>i. vscale (- rho self)
                (vsub (vadd (vsub (vscale (residual_sign i) (p ! i))
                                  (vscale (residual_sign i) (lastp ! i))) lastx) x))
       [0..<length (entities self)]"
proof -
  have n: "0 < length (entities self)" using assms by simp
  have z: "vadd (vneg a) b = vsub (vscale (- 1) a) (vscale (- 1) b)" for a b
    by (rule nth_equalityI) (simp_all add: vadd_def vneg_def vsub_def vscale_def)
  have o: "vscale 1 a = a" for a by (simp add: vscale_def)
  show ?thesis
    unfolding dual_rows_def upt_conv_Cons[OF n] list.map
    by (simp add: residual_sign_def z o)
qed


lemma signal_length:
  assumes "entities self \<noteq> []"
  shows "length (signal self (p_el_schedules self solver st)) = op_horizon' self"
proof (cases "op_horizon' self = 0")
  case True
  then show ?thesis
    by (simp add: signal_def vdiv_def vadd_def vneg_def p_el_schedules_def nth_append assms)
next
  case False
  then show ?thesis using signal_nth(1)[OF assms, of 0 solver st] by simp
qed

text \<open>
  C3. The iteration appends one primal residual norm, \<open>sqrt(numEntities)\<close> times the
  Euclidean norm of the new signal over the window, and one dual residual norm, the
  Euclidean norm of all entries \<open>-rho * (sign(i)*p[i] - sign(i)*lastP[i] + lastX - x')\<close> over
  entities and timesteps, with \<open>sign(0)\<close> negative and every other sign positive; \<open>lastP\<close>
  and \<open>lastX\<close> are the schedules and the signal stored before the iteration (zero when none
  is stored yet).
\<close>

theorem iteration_appends_residuals:
  assumes "well_shaped self st" "entities self \<noteq> []"
  shows "\<exists>st' p x'.
           iteration self solver st = Inr st' \<and>
           params_p_el st' = Some p \<and> params_x st' = Some x' \<and>
           r_norms st' = r_norms st @
             [sqrt (real (length (entities self))) * sqrt (\<Sum>t<op_horizon' self. x' ! t * x' ! t)] \<and>
           s_norms st' = s_norms st @
             [sqrt (\<Sum>i<length (entities self). \<Sum>t<op_horizon' self.
                (- rho self * ((if i = 0 then - 1 else 1) * p ! i ! t
                               - (if i = 0 then - 1 else 1)
                                 * (case params_p_el st of None \<Rightarrow> 0 | Some a \<Rightarrow> a ! i ! t)
                               + (case params_x st of None \<Rightarrow> 0 | Some a \<Rightarrow> a ! t) - x' ! t)) *
                (- rho self * ((if i = 0 then - 1 else 1) * p ! i ! t
                               - (if i = 0 then - 1 else 1)
                                 * (case params_p_el st of None \<Rightarrow> 0 | Some a \<Rightarrow> a ! i ! t)
                               + (case params_x st of None \<Rightarrow> 0 | Some a \<Rightarrow> a ! t) - x' ! t)))]"
proof -
  let ?p = "p_el_schedules self solver st" and ?H = "op_horizon' self"
  let ?n = "length (entities self)"
  let ?x = "signal self ?p"
  let ?g = "\<lambda>i. vscale (- rho self)
                (vsub (vadd (vsub (vscale (residual_sign i) (?p ! i))
                                  (vscale (residual_sign i) (last_p_el self st ! i)))
                            (last_x self st)) ?x)"
  let ?s = "\<lambda>i t. - rho self * ((if i = 0 then - 1 else 1) * ?p ! i ! t
                               - (if i = 0 then - 1 else 1)
                                 * (case params_p_el st of None \<Rightarrow> 0 | Some a \<Rightarrow> a ! i ! t)
                               + (case params_x st of None \<Rightarrow> 0 | Some a \<Rightarrow> a ! t) - ?x ! t)"
  have lx: "length ?x = ?H" by (rule signal_length[OF assms(2)])
  have llx: "length (last_x self st) = ?H" by (rule well_shaped_lengths(3)[OF assms(1)])
  have r: "linalg_norm ?x = sqrt (\<Sum>t<?H. ?x ! t * ?x ! t)"
    by (simp add: linalg_norm_def sum_list_squares_nth[OF lx])
  have row: "sum_list (map (\<lambda>v. v * v) (?g i)) = (\<Sum>t<?H. ?s i t * ?s i t)" if "i < ?n" for i
  proof -
    have lp: "length (?p ! i) = ?H" "length (last_p_el self st ! i) = ?H"
      using that assms(1) by (simp_all add: p_el_schedules_shape well_shaped_row)
    have lg: "length (?g i) = ?H"
      using lp lx llx by (simp add: vscale_def vsub_def vadd_def)
    have "?g i ! t = ?s i t" if "t < ?H" for t
      using that \<open>i < ?n\<close> lp lx llx
      by (simp add: vscale_def vsub_def vadd_def residual_sign_def last_params)
    then show ?thesis
      unfolding sum_list_squares_nth[OF lg] by (intro sum.cong) simp_all
  qed
  have "sum_list (map (\<lambda>v. v * v) (concat (dual_rows self ?p (last_p_el self st) (last_x self st) ?x)))
        = (\<Sum>i<?n. sum_list (map (\<lambda>v. v * v) (?g i)))"
    unfolding dual_rows_as_map[OF assms(2)] sum_list_squares_concat
    by (simp add: o_def interv_sum_list_conv_sum_set_nat atLeast0LessThan)
  also have "\<dots> = (\<Sum>i<?n. \<Sum>t<?H. ?s i t * ?s i t)"
    by (intro sum.cong) (simp_all add: row)
  finally have s: "linalg_norm (concat (dual_rows self ?p (last_p_el self st) (last_x self st) ?x))
        = sqrt (\<Sum>i<?n. \<Sum>t<?H. ?s i t * ?s i t)"
    by (simp add: linalg_norm_def)
  show ?thesis
    unfolding iteration_result[OF assms, of solver] r s by simp
qed


lemma iteration_well_shaped:
  assumes "well_shaped self st" "entities self \<noteq> []" "iteration self solver st = Inr st'"
  shows "well_shaped self st'"
proof -
  have "length (vadd (last_u self st) (signal self (p_el_schedules self solver st))) = op_horizon' self"
    using well_shaped_lengths(4)[OF assms(1)] signal_length[OF assms(2), of solver st]
    by (simp add: vadd_def)
  then show ?thesis
    using assms(3) signal_length[OF assms(2), of solver st]
    unfolding iteration_result[OF assms(1,2)]
    by (auto simp: well_shaped_def p_el_schedules_def list_all_iff)
qed

lemma toy_iteration:
  assumes "A = \<lparr>eps_primal = Float (1/10), eps_dual = Float 1, rho = 1, max_iterations = 10,
             op_horizon' = 1, entities = [\<lambda>p. 0, \<lambda>p. 0]\<rparr>"
    and "S = (\<lambda>i node t. if i = 0 then 0 else 2)"
  shows "entities A \<noteq> []" "length (entities A) = 2" "op_horizon' A = 1" "rho A = 1"
    "p_el_schedules A S st = [[0], [2]]"
    "signal A [[0], [2]] = [1]"
    "S i node t = (if i = 0 then 0 else 2)"
    "params_p_el (presolve A b) = None" "params_x (presolve A b) = None"
    "params_u (presolve A b) = None"
    "r_norms (presolve A b) = []" "s_norms (presolve A b) = []"
  unfolding assms
  by (simp_all add: presolve_def p_el_schedules_def signal_def sum_rows_def vdiv_def vadd_def
        vneg_def numeral_2_eq_2)

theorem iteration_updates_signal_witness:
  "\<exists>st1 st2.
     iteration \<lparr>eps_primal = Float (1/10), eps_dual = Float 1, rho = 1, max_iterations = 10,
             op_horizon' = 1, entities = [\<lambda>p. 0, \<lambda>p. 0]\<rparr> (\<lambda>i node t. if i = 0 then 0 else 2)
       (presolve \<lparr>eps_primal = Float (1/10), eps_dual = Float 1, rho = 1, max_iterations = 10,
             op_horizon' = 1, entities = [\<lambda>p. 0, \<lambda>p. 0]\<rparr> (\<lambda>i. 1)) = Inr st1 \<and>
     iteration \<lparr>eps_primal = Float (1/10), eps_dual = Float 1, rho = 1, max_iterations = 10,
             op_horizon' = 1, entities = [\<lambda>p. 0, \<lambda>p. 0]\<rparr> (\<lambda>i node t. if i = 0 then 0 else 2) st1 = Inr st2 \<and>
     params_x st1 = Some [1] \<and> params_u st1 = Some [1] \<and>
     params_p_el st2 = Some [[0], [2]] \<and> params_x st2 = Some [1] \<and> params_u st2 = Some [2]"
proof -
  define A where "A = \<lparr>eps_primal = Float (1/10), eps_dual = Float 1, rho = 1, max_iterations = 10,
             op_horizon' = 1, entities = [\<lambda>p. 0, \<lambda>p. 0]\<rparr>"
  define S :: solver where "S = (\<lambda>i node t. if i = 0 then 0 else 2)"
  note toy = toy_iteration[OF A_def S_def]
  have step: "\<exists>st'. iteration A S st = Inr st' \<and> params_p_el st' = Some [[0], [2]] \<and>
                   params_x st' = Some [1] \<and>
                   params_u st' = Some [(case params_u st of None \<Rightarrow> 0 | Some u \<Rightarrow> u ! 0) + 1]"
    if ws: "well_shaped A st" for st
  proof -
    from iteration_updates_signal[OF ws toy(1), of S]
    obtain st' p x' u' where a: "iteration A S st = Inr st'"
      "params_p_el st' = Some p" "params_x st' = Some x'" "params_u st' = Some u'"
      "length p = 2" "length x' = 1" "length u' = 1"
      and pt: "length (p ! 0) = 1" "length (p ! 1) = 1" "p ! 0 ! 0 = 0" "p ! 1 ! 0 = 2"
        "x' ! 0 = (- (p ! 0 ! 0) + (\<Sum>i = 1..<2. p ! i ! 0)) / 2"
        "u' ! 0 = (case params_u st of None \<Rightarrow> 0 | Some u \<Rightarrow> u ! 0) + x' ! 0"
      by (auto simp: toy)
    have "(\<Sum>i = 1..<2::nat. p ! i ! 0) = p ! 1 ! 0" by (simp add: numeral_2_eq_2)
    with pt have x0: "x' ! 0 = 1" by simp
    have one: "xs = [xs ! 0]" if "length xs = 1" for xs :: "'a list"
      using that by (cases xs) simp_all
    have "p = [p ! 0, p ! 1]" using a(5) by (intro nth_equalityI) (auto simp: less_Suc_eq numeral_2_eq_2)
    moreover have "p ! 0 = [0]" "p ! 1 = [2]" using one[OF pt(1)] one[OF pt(2)] pt(3,4) by simp_all
    ultimately have p: "p = [[0], [2]]" by simp
    have x: "x' = [1]" using one[OF a(6)] x0 by simp
    have u: "u' = [(case params_u st of None \<Rightarrow> 0 | Some u \<Rightarrow> u ! 0) + 1]"
      using one[OF a(7)] pt(6) x0 by simp
    show ?thesis using a(1,2,3,4) p x u by simp
  qed
  from step[OF presolve_well_shaped, of "\<lambda>i. 1"]
  obtain st1 where 1: "iteration A S (presolve A (\<lambda>i. 1)) = Inr st1"
    "params_x st1 = Some [1]" "params_u st1 = Some [1]"
    by (auto simp: toy)
  have ws1: "well_shaped A st1"
    using iteration_well_shaped[OF presolve_well_shaped toy(1) 1(1)] .
  from step[OF ws1] obtain st2 where 2: "iteration A S st1 = Inr st2"
    "params_p_el st2 = Some [[0], [2]]" "params_x st2 = Some [1]" "params_u st2 = Some [2]"
    by (auto simp: 1)
  from 1 2 have "\<exists>st1 st2.
     iteration A S (presolve A (\<lambda>i. 1)) = Inr st1 \<and> iteration A S st1 = Inr st2 \<and>
     params_x st1 = Some [1] \<and> params_u st1 = Some [1] \<and>
     params_p_el st2 = Some [[0], [2]] \<and> params_x st2 = Some [1] \<and> params_u st2 = Some [2]"
    by blast
  then show ?thesis unfolding A_def S_def .
qed

theorem iteration_appends_residuals_witness:
  "\<exists>st1 st2.
     iteration \<lparr>eps_primal = Float (1/10), eps_dual = Float 1, rho = 1, max_iterations = 10,
             op_horizon' = 1, entities = [\<lambda>p. 0, \<lambda>p. 0]\<rparr> (\<lambda>i node t. if i = 0 then 0 else 2)
       (presolve \<lparr>eps_primal = Float (1/10), eps_dual = Float 1, rho = 1, max_iterations = 10,
             op_horizon' = 1, entities = [\<lambda>p. 0, \<lambda>p. 0]\<rparr> (\<lambda>i. 1)) = Inr st1 \<and>
     iteration \<lparr>eps_primal = Float (1/10), eps_dual = Float 1, rho = 1, max_iterations = 10,
             op_horizon' = 1, entities = [\<lambda>p. 0, \<lambda>p. 0]\<rparr> (\<lambda>i node t. if i = 0 then 0 else 2) st1 = Inr st2 \<and>
     params_p_el st1 = Some [[0], [2]] \<and> params_x st1 = Some [1] \<and>
     r_norms st2 = [sqrt 2, sqrt 2] \<and> s_norms st2 = [sqrt 2, 0]"
proof -
  define A where "A = \<lparr>eps_primal = Float (1/10), eps_dual = Float 1, rho = 1, max_iterations = 10,
             op_horizon' = 1, entities = [\<lambda>p. 0, \<lambda>p. 0]\<rparr>"
  define S :: solver where "S = (\<lambda>i node t. if i = 0 then 0 else 2)"
  define st0 where "st0 = presolve A (\<lambda>i. 1)"
  note toy = toy_iteration[OF A_def S_def]
  have ws0: "well_shaped A st0" unfolding st0_def by (rule presolve_well_shaped)
  have p0: "params_p_el st0 = None" "params_x st0 = None" "r_norms st0 = []" "s_norms st0 = []"
    by (simp_all add: st0_def toy)
  from iteration_appends_residuals[OF ws0 toy(1), of S]
  obtain st1 p1 x1 where a1: "iteration A S st0 = Inr st1"
    "params_p_el st1 = Some p1" "params_x st1 = Some x1"
    and r1: "r_norms st1 = r_norms st0 @
                [sqrt (real (length (entities A))) * sqrt (\<Sum>t<op_horizon' A. x1 ! t * x1 ! t)]"
    and s1: "s_norms st1 = s_norms st0 @
             [sqrt (\<Sum>i<length (entities A). \<Sum>t<op_horizon' A.
                (- rho A * ((if i = 0 then - 1 else 1) * p1 ! i ! t
                               - (if i = 0 then - 1 else 1)
                                 * (case params_p_el st0 of None \<Rightarrow> 0 | Some a \<Rightarrow> a ! i ! t)
                               + (case params_x st0 of None \<Rightarrow> 0 | Some a \<Rightarrow> a ! t) - x1 ! t)) *
                (- rho A * ((if i = 0 then - 1 else 1) * p1 ! i ! t
                               - (if i = 0 then - 1 else 1)
                                 * (case params_p_el st0 of None \<Rightarrow> 0 | Some a \<Rightarrow> a ! i ! t)
                               + (case params_x st0 of None \<Rightarrow> 0 | Some a \<Rightarrow> a ! t) - x1 ! t)))]"
    by blast
  have b1: "p1 = [[0], [2]]" "x1 = [1]"
    using a1 iteration_result[OF ws0 toy(1), of S] by (auto simp: toy)
  have r1': "r_norms st1 = [sqrt 2]" using r1 unfolding b1 toy p0 by simp
  have s1': "s_norms st1 = [sqrt 2]"
    using s1 unfolding b1 toy p0 by (simp add: lessThan_Suc numeral_2_eq_2)
  have ws1: "well_shaped A st1" by (rule iteration_well_shaped[OF ws0 toy(1) a1(1)])
  have p1: "params_p_el st1 = Some [[0], [2]]" "params_x st1 = Some [1]"
    using a1 b1 by simp_all
  from iteration_appends_residuals[OF ws1 toy(1), of S]
  obtain st2 p2 x2 where a2: "iteration A S st1 = Inr st2"
    "params_p_el st2 = Some p2" "params_x st2 = Some x2"
    and r2: "r_norms st2 = r_norms st1 @
                [sqrt (real (length (entities A))) * sqrt (\<Sum>t<op_horizon' A. x2 ! t * x2 ! t)]"
    and s2: "s_norms st2 = s_norms st1 @
             [sqrt (\<Sum>i<length (entities A). \<Sum>t<op_horizon' A.
                (- rho A * ((if i = 0 then - 1 else 1) * p2 ! i ! t
                               - (if i = 0 then - 1 else 1)
                                 * (case params_p_el st1 of None \<Rightarrow> 0 | Some a \<Rightarrow> a ! i ! t)
                               + (case params_x st1 of None \<Rightarrow> 0 | Some a \<Rightarrow> a ! t) - x2 ! t)) *
                (- rho A * ((if i = 0 then - 1 else 1) * p2 ! i ! t
                               - (if i = 0 then - 1 else 1)
                                 * (case params_p_el st1 of None \<Rightarrow> 0 | Some a \<Rightarrow> a ! i ! t)
                               + (case params_x st1 of None \<Rightarrow> 0 | Some a \<Rightarrow> a ! t) - x2 ! t)))]"
    by blast
  have b2: "p2 = [[0], [2]]" "x2 = [1]"
    using a2 iteration_result[OF ws1 toy(1), of S] by (auto simp: toy)
  have r2': "r_norms st2 = [sqrt 2, sqrt 2]" using r2 unfolding b2 toy r1' by simp
  have s2': "s_norms st2 = [sqrt 2, 0]"
    using s2 unfolding b2 toy p1 s1' by (simp add: lessThan_Suc numeral_2_eq_2)
  from a1(1) a2(1) p1 r2' s2' have "\<exists>st1 st2.
     iteration A S (presolve A (\<lambda>i. 1)) = Inr st1 \<and> iteration A S st1 = Inr st2 \<and>
     params_p_el st1 = Some [[0], [2]] \<and> params_x st1 = Some [1] \<and>
     r_norms st2 = [sqrt 2, sqrt 2] \<and> s_norms st2 = [sqrt 2, 0]"
    unfolding st0_def by blast
  then show ?thesis unfolding A_def S_def .
qed

subsection \<open>Termination of the run\<close>




lemma solve_infinite_thresholds:
  assumes "eps_primal self = PosInf" "eps_dual self = PosInf"
    and "1 < max_iterations self" "entities self \<noteq> []"
  shows "\<exists>st. solve self solver beta = Inr st \<and> iterations st = [1] \<and>
              length (r_norms st) = 1 \<and> length (s_norms st) = 1"
proof -
  have ws: "well_shaped self (presolve self beta)" by (rule presolve_well_shaped)
  obtain st1 where it: "iteration self solver (presolve self beta) = Inr st1"
    and f: "iterations st1 = [1]" "length (r_norms st1) = 1" "length (s_norms st1) = 1"
    unfolding iteration_result[OF ws assms(4)]
    by (simp add: presolve_def IterationAlgorithm_iteration_def)
  have "r_norms st1 \<noteq> []" "s_norms st1 \<noteq> []" using f by auto
  then have "is_last_iteration self st1 = Inr True"
    using assms(1,2,3)
    by (simp add: is_last_iteration_def IterationAlgorithm_is_last_iteration_def f)
  then have "solve self solver beta = Inr st1"
    unfolding solve_def by (subst solve_loop.simps) (simp add: it)
  then show ?thesis using f by simp
qed

text \<open>
  C5 (as amended). A run with both thresholds at plus infinity, an iteration cap above 1
  and at least one entity returns after exactly one iteration: the first residual pair
  passes the convergence test, and the cap is not reached.
\<close>

theorem infinite_thresholds_stop_after_first_iteration:
  assumes "eps_primal self = PosInf" "eps_dual self = PosInf"
    and "1 < max_iterations self" "entities self \<noteq> []"
  shows "\<exists>st. solve self solver beta = Inr st \<and> iterations st = [1] \<and>
              length (r_norms st) = 1 \<and> length (s_norms st) = 1"
  using assms by (rule solve_infinite_thresholds)

theorem infinite_thresholds_stop_after_first_iteration_witness:
  "\<exists>st. solve \<lparr>eps_primal = PosInf, eps_dual = PosInf, rho = 2, max_iterations = 5,
             op_horizon' = 1, entities = [\<lambda>p. 0, \<lambda>p. 0]\<rparr> (\<lambda>i node t. if i = 0 then 0 else 2) (\<lambda>i. 1) = Inr st \<and> iterations st = [1]"
  using infinite_thresholds_stop_after_first_iteration[of "\<lparr>eps_primal = PosInf, eps_dual = PosInf, rho = 2, max_iterations = 5,
             op_horizon' = 1, entities = [\<lambda>p. 0, \<lambda>p. 0]\<rparr>" "(\<lambda>i node t. if i = 0 then 0 else 2)" "\<lambda>i. 1"]
  by auto

text \<open>
  C5 as stated fails: with infinite thresholds and the cap at 5 the run records the
  iterations \<open>[1]\<close>, not five of them.
\<close>

theorem infinite_thresholds_do_not_reach_cap:
  "map_sum id iterations (solve \<lparr>eps_primal = PosInf, eps_dual = PosInf, rho = 2, max_iterations = 5,
             op_horizon' = 1, entities = [\<lambda>p. 0, \<lambda>p. 0]\<rparr> (\<lambda>i node t. if i = 0 then 0 else 2) (\<lambda>i. 1)) = Inr [1]"
proof -
  obtain st where "solve \<lparr>eps_primal = PosInf, eps_dual = PosInf, rho = 2, max_iterations = 5,
             op_horizon' = 1, entities = [\<lambda>p. 0, \<lambda>p. 0]\<rparr> (\<lambda>i node t. if i = 0 then 0 else 2) (\<lambda>i. 1) = Inr st" "iterations st = [1]"
    using solve_infinite_thresholds[of "\<lparr>eps_primal = PosInf, eps_dual = PosInf, rho = 2, max_iterations = 5,
             op_horizon' = 1, entities = [\<lambda>p. 0, \<lambda>p. 0]\<rparr>" "(\<lambda>i node t. if i = 0 then 0 else 2)" "\<lambda>i. 1"] by auto
  then show ?thesis by simp
qed

section \<open>The update at the start of the simulation\<close>

lemma populate_integer_keeps:
  assumes "populate_integer model self ml mf = Inr (self1, model1)"
  shows "constr_previous self1 = constr_previous self" "currentTimestep self1 = currentTimestep self"
  using assms
  by (auto simp: populate_integer_def Let_def split: if_splits)

lemma populate_convex_keeps:
  assumes "populate_convex model self ml mf = Inr (self1, model1)"
  shows "constr_previous_state self1 = constr_previous_state self"
    "constr_previous_start self1 = constr_previous_start self"
    "currentTimestep self1 = currentTimestep self"
    "P_El_vars self1 = P_El_vars self" "P_State_vars self1 = P_State_vars self"
    "max_low self1 = max_low self" "min_full self1 = min_full self"
    "P_El_Nom self1 = P_El_Nom self" "P_El_Curt self1 = P_El_Curt self"
  using assms
  by (auto simp: populate_convex_def Let_def split: if_splits)

lemma update_model_unchanged:
  assumes "currentTimestep self = 0" "constr_previous self = []"
  shows "update_model model mode self = Inr model"
  using assms by (simp add: update_model_def)

lemma populate_model_no_previous:
  assumes "init H T nom curt ml mf = Inr self0"
    and "populate_model [] mode self0 = Inr (self1, model1)"
    and "mode = ''integer'' \<or> ml = None \<or> ml = Some 0"
  shows "constr_previous self1 = []"
proof -
  from assms(1) have s0: "constr_previous self0 = []" "max_low self0 = ml"
    by (auto simp: init_def split: if_splits)
  show ?thesis
  proof (cases ml)
    case None
    then show ?thesis using assms(2) s0
      by (auto simp: populate_model_def ElectricalEntity_populate_model_def Let_def split: if_splits)
  next
    case (Some a)
    show ?thesis
    proof (cases "a = 0")
      case True
      then show ?thesis using assms(2) s0 Some
        by (auto simp: populate_model_def ElectricalEntity_populate_model_def Let_def split: if_splits)
    next
      case False
      with assms(3) Some have m: "mode = ''integer''" by simp
      from assms(2) obtain b s2 where "populate_integer [] s2 a b = Inr (self1, model1)"
        "constr_previous s2 = []"
        using s0 Some False
        by (auto simp: populate_model_def ElectricalEntity_populate_model_def Let_def m
                 split: if_splits option.splits)
      then show ?thesis using populate_integer_keeps(1) by metis
    qed
  qed
qed


lemma set_RHS_nth:
  "length (set_RHS model h v) = length model"
  "h < length model \<Longrightarrow> set_RHS model h v ! h = (model ! h)\<lparr>RHS := v\<rparr>"
  "i \<noteq> h \<Longrightarrow> set_RHS model h v ! i = model ! i"
  by (simp_all add: set_RHS_def)

lemma update_previous_nth:
  assumes "\<And>j. j < length hs \<Longrightarrow> previous_bound self ml mf (k + int j) = Inr (bnd (k + int j))"
    and "distinct hs" and "\<And>h. h \<in> set hs \<Longrightarrow> h < length model"
  shows "\<exists>model'. update_previous self ml mf k hs model = Inr model' \<and>
           length model' = length model \<and>
           (\<forall>j<length hs. model' ! (hs ! j) = (model ! (hs ! j))\<lparr>RHS := Finite (bnd (k + int j))\<rparr>) \<and>
           (\<forall>i. i \<notin> set hs \<longrightarrow> model' ! i = model ! i)"
  using assms
proof (induction hs arbitrary: k model)
  case Nil
  then show ?case by simp
next
  case (Cons h hs)
  let ?m1 = "set_RHS model h (Finite (bnd k))"
  have b0: "previous_bound self ml mf k = Inr (bnd k)" using Cons.prems(1)[of 0] by simp
  have b: "previous_bound self ml mf (k + 1 + int j) = Inr (bnd (k + 1 + int j))"
    if "j < length hs" for j
  proof -
    from that have "Suc j < length (h # hs)" by simp
    from Cons.prems(1)[OF this] show ?thesis by (simp add: algebra_simps)
  qed
  have d: "distinct hs" "h \<notin> set hs" using Cons.prems(2) by simp_all
  have l: "\<And>h'. h' \<in> set hs \<Longrightarrow> h' < length ?m1" "h < length model"
    using Cons.prems(3) by (simp_all add: set_RHS_nth)
  from Cons.IH[of "k + 1" ?m1, OF b d(1) l(1)]
  obtain model' where m: "update_previous self ml mf (k + 1) hs ?m1 = Inr model'"
    "length model' = length ?m1"
    "\<forall>j<length hs. model' ! (hs ! j) = (?m1 ! (hs ! j))\<lparr>RHS := Finite (bnd (k + 1 + int j))\<rparr>"
    "\<forall>i. i \<notin> set hs \<longrightarrow> model' ! i = ?m1 ! i"
    by blast
  have u: "update_previous self ml mf k (h # hs) model = Inr model'"
    using b0 m(1) by simp
  have len: "length model' = length model" using m(2) by (simp add: set_RHS_nth)
  have upd: "model' ! ((h # hs) ! j) = (model ! ((h # hs) ! j))\<lparr>RHS := Finite (bnd (k + int j))\<rparr>"
    if "j < length (h # hs)" for j
  proof (cases j)
    case 0
    then show ?thesis using m(4) d(2) l(2) by (simp add: set_RHS_nth)
  next
    case (Suc j')
    then have j': "j' < length hs" using that by simp
    then have "hs ! j' \<noteq> h" using d(2) by (metis nth_mem)
    then show ?thesis using m(3) j' Suc by (simp add: set_RHS_nth algebra_simps)
  qed
  have rest: "model' ! i = model ! i" if "i \<notin> set (h # hs)" for i
    using that m(4) by (simp add: set_RHS_nth)
  show ?case using u len upd rest by blast
qed

lemma previous_bound_at_start:
  assumes "currentTimestep self = 0" "1 \<le> k" "k < ml + mf" "0 \<le> ml" "0 \<le> mf"
  shows "previous_bound self ml mf k =
     Inr (sum_list (take (nat k) (replicate (nat ml) (P_El_Curt self) @ replicate (nat mf) (P_El_Nom self))))"
proof -
  define req where "req = replicate (nat ml) (P_El_Curt self) @ replicate (nat mf) (P_El_Nom self)"
  have len: "int (length req) = ml + mf" using assms(4,5) by (simp add: req_def)
  have st: "0 - (mf + ml - k) < 0" using assms(3) by simp
  have sl: "py_slice req 0 (0 - (mf + ml - k)) = take (nat k) req"
    using assms(2,3) len by (simp add: py_slice_def py_clamp_def Let_def algebra_simps)
  have e: "py_slice (P_El_Schedule self) 0 0 = []"
    by (simp add: py_slice_def py_clamp_def)
  have lt: "int (length (take (nat k) req)) = k" using assms(2,3) len by simp
  have "previous_bound self ml mf k = Inr (sum_list (take (nat k) req))"
    unfolding previous_bound_def Let_def assms(1) req_def[symmetric]
    using st lt sl by (simp add: e del: length_take)
  then show ?thesis by (simp add: req_def)
qed

lemma sum_list_take_required:
  "sum_list (take m (replicate A c @ replicate B n)) =
     real (min m A) * c + real (min (m - A) B) * (n::real)"
  by (simp add: sum_list_replicate)

lemma prefix_energy:
  fixes f :: "nat \<Rightarrow> real"
  assumes bounds: "\<And>t. t < H \<Longrightarrow> c \<le> f t \<and> f t \<le> n"
    and w: "A + B \<le> H"
    and window: "n * real B + c * real A \<le> (\<Sum>t<A + B. f t)"
    and m: "m < A + B"
  shows "sum_list (take m (replicate A c @ replicate B n)) \<le> (\<Sum>t<m. f t)"
proof (cases "m \<le> A")
  case True
  have "real m * c \<le> (\<Sum>t<m. f t)"
    using sum_bounded_below[of "{..<m}" c f] bounds m w by (simp add: mult.commute)
  then show ?thesis unfolding sum_list_take_required using True by (simp add: min_absorb1)
next
  case False
  then have mA: "A < m" by simp
  have split: "(\<Sum>t<A + B. f t) = (\<Sum>t<m. f t) + (\<Sum>t = m..<A + B. f t)"
    using m by (simp add: sum.atLeastLessThan_concat atLeast0LessThan[symmetric])
  have "(\<Sum>t = m..<A + B. f t) \<le> real (A + B - m) * n"
    using sum_bounded_above[of "{m..<A + B}" f n] bounds w by simp
  with window split have le: "n * real B + c * real A - real (A + B - m) * n \<le> (\<Sum>t<m. f t)"
    by linarith
  have e: "n * real B + c * real A - real (A + B - m) * n = real A * c + real (m - A) * n"
    using mA m by (simp add: algebra_simps of_nat_diff)
  have mins: "min (m - A) B = m - A" "min m A = A" using mA m by simp_all
  from le have "real A * c + real (m - A) * n \<le> (\<Sum>t<m. f t)" unfolding e .
  then show ?thesis unfolding sum_list_take_required mins .
qed

lemma lin_value_quicksum_take:
  assumes "m \<le> length P" "\<And>t. t < length P \<Longrightarrow> vid (P ! t) = P_El t"
  shows "lin_value \<sigma> (quicksum (take m P)) = (\<Sum>t<m. \<sigma> (P_El t))"
proof -
  have "lin_value \<sigma> (quicksum (take m P)) = (\<Sum>t<m. \<sigma> (vid (P ! t)))"
    using assms(1)
    by (simp add: lin_value_def quicksum_def o_def sum_list_sum_nth atLeast0LessThan min_absorb2)
  also have "\<dots> = (\<Sum>t<m. \<sigma> (P_El t))"
    using assms by (intro sum.cong) simp_all
  finally show ?thesis .
qed

lemma populate_model_convex:
  assumes "init H T nom curt (Some a) (Some b) = Inr self0"
    and "populate_model [] ''convex'' self0 = Inr (self1, model1)"
    and "a \<noteq> 0"
  shows "\<exists>window previous.
           model1 = window @ previous \<and>
           constr_previous self1 = [length window..<length window + length previous] \<and>
           length previous = min (nat (a + b - 1)) H \<and>
           (\<forall>j<length previous.
              previous ! j = \<lparr>lhs = quicksum (take (Suc j) (P_El_vars self1)),
                               sense = GREATER_EQUAL, RHS = NegInfinity\<rparr>) \<and>
           (a + b \<le> int H \<longrightarrow>
              window \<noteq> [] \<and>
              window ! 0 = \<lparr>lhs = quicksum (take (nat (a + b)) (P_El_vars self1)),
                             sense = GREATER_EQUAL,
                             RHS = Finite (nom * real_of_int b + nom * curt * real_of_int a)\<rparr>)"
    and "P_El_vars self1 =
           map (\<lambda>t. \<lparr>vid = P_El t, lb = Finite (nom * curt), ub = Finite nom, vtype = CONTINUOUS\<rparr>) [0..<H]"
    and "currentTimestep self1 = 0" "max_low self1 = Some a" "min_full self1 = Some b"
    and "P_El_Nom self1 = nom" "P_El_Curt self1 = nom * curt"
    and "constr_previous_state self1 = []" "P_State_vars self1 = []"
    and "constr_previous_start self1 = None"
proof -
  from assms(1) have ab: "0 \<le> a" "1 \<le> b"
    and s0: "constr_previous self0 = []" "max_low self0 = Some a" "min_full self0 = Some b"
      "op_horizon self0 = H" "P_El_Nom self0 = nom" "P_El_Curt self0 = nom * curt"
      "currentTimestep self0 = 0" "constr_previous_state self0 = []" "P_State_vars self0 = []"
      "constr_previous_start self0 = None"
    by (auto simp: init_def split: if_splits)
  define P where "P = map (\<lambda>t. \<lparr>vid = P_El t, lb = Finite (nom * curt), ub = Finite nom, vtype = CONTINUOUS\<rparr>) [0..<H]"
  define self2 where "self2 = self0\<lparr>P_El_vars := P\<rparr>"
  have pc: "populate_convex [] self2 a b = Inr (self1, model1)"
    using assms(2,3) s0
    by (simp add: populate_model_def ElectricalEntity_populate_model_def Let_def self2_def P_def o_def)
  have s2: "P_El_vars self2 = P" "op_horizon self2 = H" "P_El_Nom self2 = nom"
    "P_El_Curt self2 = nom * curt" "constr_previous self2 = []" "currentTimestep self2 = 0"
    "max_low self2 = Some a" "min_full self2 = Some b" "constr_previous_state self2 = []"
    "P_State_vars self2 = []" "constr_previous_start self2 = None"
    using s0 by (simp_all add: self2_def)
  note keeps = populate_convex_keeps[OF pc]
  show "P_El_vars self1 =
           map (\<lambda>t. \<lparr>vid = P_El t, lb = Finite (nom * curt), ub = Finite nom, vtype = CONTINUOUS\<rparr>) [0..<H]"
    "currentTimestep self1 = 0" "max_low self1 = Some a" "min_full self1 = Some b"
    "P_El_Nom self1 = nom" "P_El_Curt self1 = nom * curt"
    "constr_previous_state self1 = []" "P_State_vars self1 = []"
    "constr_previous_start self1 = None"
    using keeps s2 by (simp_all add: P_def)
  have P1: "P_El_vars self1 = P" using keeps s2 by simp
  define width where "width = b + a"
  define ts where "ts = py_slice [0..<H] 0 (- width + 1)"
  define window where "window = map (\<lambda>t. \<lparr>lhs = quicksum (py_slice P (int t) (int t + width)),
       sense = GREATER_EQUAL, RHS = Finite (nom * real_of_int b + nom * curt * real_of_int a)\<rparr>) ts"
  define previous where "previous = map (\<lambda>overlap. \<lparr>lhs = quicksum (py_slice P 0 (overlap + 1)),
       sense = GREATER_EQUAL, RHS = NegInfinity\<rparr>) [0..min (a + b - 1) (int H) - 1]"
  have res: "model1 = window @ previous"
    "constr_previous self1 = [length window..<length window + length previous]"
    using pc unfolding populate_convex_def Let_def s2 width_def[symmetric] ts_def[symmetric]
      window_def[symmetric] previous_def[symmetric]
    by (auto split: if_splits)
  have w: "2 \<le> width" using ab assms(3) by (simp add: width_def)
  have lenP: "length P = H" by (simp add: P_def)
  have lp: "length previous = min (nat (a + b - 1)) H"
    using w by (auto simp: previous_def width_def min_def)
  have pj: "previous ! j = \<lparr>lhs = quicksum (take (Suc j) P),
                               sense = GREATER_EQUAL, RHS = NegInfinity\<rparr>" if "j < length previous" for j
  proof -
    have j: "int j \<le> a + b - 2" "Suc j \<le> H" using that lp by auto
    have "[0..min (a + b - 1) (int H) - 1] ! j = int j"
      using j by (subst nth_upto) simp_all
    moreover have "nat (int j + 1) = Suc j" by simp
    then have "py_slice P 0 (int j + 1) = take (Suc j) P"
      using j lenP by (simp add: py_slice_def py_clamp_def Let_def)
    ultimately show ?thesis using that by (simp add: previous_def)
  qed
  have w0: "window \<noteq> [] \<and>
       window ! 0 = \<lparr>lhs = quicksum (take (nat (a + b)) P),
         sense = GREATER_EQUAL, RHS = Finite (nom * real_of_int b + nom * curt * real_of_int a)\<rparr>"
    if le: "a + b \<le> int H"
  proof -
    have wH: "width \<le> int H" using le by (simp add: width_def)
    have ts: "ts = [0..<nat (int H + (1 - width))]"
      using w wH by (simp add: ts_def py_slice_def py_clamp_def Let_def)
    have "ts \<noteq> []" "ts ! 0 = 0" using w wH unfolding ts by simp_all
    moreover have "py_slice P 0 width = take (nat (a + b)) P"
      using w wH lenP by (simp add: py_slice_def py_clamp_def Let_def width_def add.commute)
    ultimately show ?thesis by (simp add: window_def)
  qed
  show "\<exists>window previous.
           model1 = window @ previous \<and>
           constr_previous self1 = [length window..<length window + length previous] \<and>
           length previous = min (nat (a + b - 1)) H \<and>
           (\<forall>j<length previous.
              previous ! j = \<lparr>lhs = quicksum (take (Suc j) (P_El_vars self1)),
                               sense = GREATER_EQUAL, RHS = NegInfinity\<rparr>) \<and>
           (a + b \<le> int H \<longrightarrow>
              window \<noteq> [] \<and>
              window ! 0 = \<lparr>lhs = quicksum (take (nat (a + b)) (P_El_vars self1)),
                             sense = GREATER_EQUAL,
                             RHS = Finite (nom * real_of_int b + nom * curt * real_of_int a)\<rparr>)"
    using res lp pj w0 unfolding P1 by blast
qed

lemma realised_fields:
  "currentTimestep (realised self t p s) = t"
  "constr_previous (realised self t p s) = constr_previous self"
  "constr_previous_state (realised self t p s) = constr_previous_state self"
  "max_low (realised self t p s) = max_low self" "min_full (realised self t p s) = min_full self"
  "P_El_Nom (realised self t p s) = P_El_Nom self" "P_El_Curt (realised self t p s) = P_El_Curt self"
  by (simp_all add: realised_def)

lemma convex_start_update:
  assumes "init H T nom curt (Some a) (Some b) = Inr self0"
    and "populate_model [] ''convex'' self0 = Inr (self1, model1)"
    and "a \<noteq> 0"
  shows "\<exists>model2. update_model model1 ''convex'' (realised self1 0 powers states) = Inr model2 \<and>
           map (\<lambda>h. RHS (model2 ! h)) (constr_previous self1) =
             map (\<lambda>k. Finite (real (min k (nat a)) * (nom * curt) + real (k - nat a) * nom))
               [1..<Suc (min (nat (a + b - 1)) H)] \<and>
           (a + b \<le> int H \<longrightarrow> (\<forall>\<sigma>. feasible \<sigma> self1 model1 \<longrightarrow> feasible \<sigma> self1 model2))"
proof -
  from assms(1) have ab: "0 \<le> a" "1 \<le> b" by (auto simp: init_def split: if_splits)
  with assms(3) have a1: "1 \<le> a" by simp
  note pm = populate_model_convex[OF assms]
  from pm(1) obtain window previous where
    m1: "model1 = window @ previous"
    and hs: "constr_previous self1 = [length window..<length window + length previous]"
    and lp: "length previous = min (nat (a + b - 1)) H"
    and pj: "\<And>j. j < length previous \<Longrightarrow>
              previous ! j = \<lparr>lhs = quicksum (take (Suc j) (P_El_vars self1)),
                               sense = GREATER_EQUAL, RHS = NegInfinity\<rparr>"
    and w0: "a + b \<le> int H \<Longrightarrow> window \<noteq> []"
      "a + b \<le> int H \<Longrightarrow>
         window ! 0 = \<lparr>lhs = quicksum (take (nat (a + b)) (P_El_vars self1)),
                          sense = GREATER_EQUAL,
                          RHS = Finite (nom * real_of_int b + nom * curt * real_of_int a)\<rparr>"
    by blast
  let ?self = "realised self1 0 powers states"
  let ?P = "P_El_vars self1"
  let ?l = "length window" and ?n = "length previous"
  define req where "req = replicate (nat a) (nom * curt) @ replicate (nat b) nom"
  define bnd where "bnd k = sum_list (take (nat k) req)" for k :: int
  have lenP: "length ?P = H" and vidP: "\<And>t. t < length ?P \<Longrightarrow> vid (?P ! t) = P_El t"
    by (simp_all add: pm(2))
  have jn: "Suc j < nat a + nat b" if "j < ?n" for j using that lp ab by auto
  have pb: "previous_bound ?self a b (1 + int j) = Inr (bnd (1 + int j))"
    if "j < length (constr_previous self1)" for j
  proof -
    have "j < nat (a + b - 1)" using that hs lp by simp
    then have "1 + int j < a + b" by simp
    then show ?thesis
      using previous_bound_at_start[of ?self "1 + int j" a b] ab
      by (simp add: realised_fields pm bnd_def req_def)
  qed
  have dist: "distinct (constr_previous self1)" by (simp add: hs)
  have inr: "\<And>h. h \<in> set (constr_previous self1) \<Longrightarrow> h < length model1"
    by (simp add: hs m1)
  from update_previous_nth[of "constr_previous self1" ?self a b 1 bnd model1, OF pb dist inr]
  obtain model2 where u: "update_previous ?self a b 1 (constr_previous self1) model1 = Inr model2"
    and len: "length model2 = length model1"
    and upd: "\<And>j. j < length (constr_previous self1) \<Longrightarrow>
        model2 ! (constr_previous self1 ! j)
          = (model1 ! (constr_previous self1 ! j))\<lparr>RHS := Finite (bnd (1 + int j))\<rparr>"
    and rest: "\<And>i. i \<notin> set (constr_previous self1) \<Longrightarrow> model2 ! i = model1 ! i"
    by blast
  have um: "update_model model1 ''convex'' ?self = Inr model2"
  proof (cases "constr_previous self1 = []")
    case True
    with u have "model2 = model1" by simp
    then show ?thesis using True by (simp add: update_model_def realised_fields pm)
  next
    case False
    then show ?thesis using u by (simp add: update_model_def realised_fields pm)
  qed
  have closed: "bnd (1 + int j) = real (min (Suc j) (nat a)) * (nom * curt) + real (Suc j - nat a) * nom"
    if "j < ?n" for j
  proof -
    have "nat (1 + int j) = Suc j" by simp
    moreover have "min (Suc j - nat a) (nat b) = Suc j - nat a" using jn[OF that] by simp
    ultimately show ?thesis unfolding bnd_def req_def sum_list_take_required by simp
  qed
  have bounds: "map (\<lambda>h. RHS (model2 ! h)) (constr_previous self1) =
             map (\<lambda>k. Finite (real (min k (nat a)) * (nom * curt) + real (k - nat a) * nom))
               [1..<Suc (min (nat (a + b - 1)) H)]"
  proof (rule nth_equalityI)
    show "length (map (\<lambda>h. RHS (model2 ! h)) (constr_previous self1)) =
          length (map (\<lambda>k. Finite (real (min k (nat a)) * (nom * curt) + real (k - nat a) * nom))
                    [1..<Suc (min (nat (a + b - 1)) H)])"
      by (simp add: hs lp del: upt_Suc)
  next
    fix j assume "j < length (map (\<lambda>h. RHS (model2 ! h)) (constr_previous self1))"
    then have j: "j < ?n" "j < length (constr_previous self1)" by (simp_all add: hs)
    have "RHS (model2 ! (constr_previous self1 ! j)) = Finite (bnd (1 + int j))"
      using upd[OF j(2)] by simp
    moreover have "[1..<Suc (min (nat (a + b - 1)) H)] ! j = Suc j"
      using j(1) lp by (simp del: upt_Suc)
    ultimately show "map (\<lambda>h. RHS (model2 ! h)) (constr_previous self1) ! j =
          map (\<lambda>k. Finite (real (min k (nat a)) * (nom * curt) + real (k - nat a) * nom))
            [1..<Suc (min (nat (a + b - 1)) H)] ! j"
      using j lp closed[OF j(1)] by (simp del: upt_Suc)
  qed
  have feas: "feasible \<sigma> self1 model2" if le: "a + b \<le> int H" and f: "feasible \<sigma> self1 model1" for \<sigma>
  proof -
    from f have vb: "list_all (within_bounds \<sigma>) ?P" and sat: "list_all (satisfies \<sigma>) model1"
      by (simp_all add: feasible_def)
    have bounds: "nom * curt \<le> \<sigma> (P_El t) \<and> \<sigma> (P_El t) \<le> nom" if "t < H" for t
    proof -
      have "?P ! t \<in> set ?P" using that lenP by simp
      then have "within_bounds \<sigma> (?P ! t)" using vb by (simp add: list_all_iff)
      then show ?thesis using that by (simp add: pm(2) within_bounds_def)
    qed
    have "satisfies \<sigma> (window ! 0)"
      using sat w0(1)[OF le] by (simp add: m1 list_all_iff)
    then have win: "nom * real (nat b) + nom * curt * real (nat a)
                    \<le> (\<Sum>t<nat a + nat b. \<sigma> (P_El t))"
      using lin_value_quicksum_take[of "nat (a + b)" ?P \<sigma>, OF _ vidP] le ab lenP
      by (simp add: w0(2)[OF le] satisfies_def nat_add_distrib)
    have wH: "nat a + nat b \<le> H" using le ab by simp
    have "satisfies \<sigma> (model2 ! i)" if i: "i < length model2" for i
    proof (cases "i < ?l")
      case True
      then have "i \<notin> set (constr_previous self1)" by (simp add: hs)
      then have "model2 ! i = model1 ! i" by (rule rest)
      moreover have "model1 ! i \<in> set model1" using i len by simp
      ultimately show ?thesis using sat by (simp add: list_all_iff)
    next
      case False
      define j where "j = i - ?l"
      have j: "j < ?n" "i = ?l + j" using False i len by (simp_all add: j_def m1)
      have hj: "constr_previous self1 ! j = i" using j by (simp add: hs)
      have "model2 ! i = (model1 ! i)\<lparr>RHS := Finite (bnd (1 + int j))\<rparr>"
        using upd[of j] j hj by (simp add: hs)
      also have "model1 ! i = previous ! j" using j by (simp add: m1)
      finally have c: "model2 ! i = \<lparr>lhs = quicksum (take (Suc j) ?P),
                               sense = GREATER_EQUAL, RHS = Finite (bnd (1 + int j))\<rparr>"
        using pj[OF j(1)] by simp
      have jw: "Suc j < nat a + nat b" by (rule jn[OF j(1)])
      have "bnd (1 + int j) \<le> (\<Sum>t<Suc j. \<sigma> (P_El t))"
        using prefix_energy[of H "nom * curt" "\<lambda>t. \<sigma> (P_El t)" nom "nat a" "nat b" "Suc j",
                OF bounds wH _ jw] win
        by (simp add: bnd_def req_def nat_add_distrib mult.commute)
      moreover have "lin_value \<sigma> (quicksum (take (Suc j) ?P)) = (\<Sum>t<Suc j. \<sigma> (P_El t))"
        using jw wH lenP by (intro lin_value_quicksum_take) (simp_all add: vidP)
      ultimately show ?thesis unfolding c by (simp add: satisfies_def)
    qed
    then have "list_all (satisfies \<sigma>) model2" by (simp add: list_all_length)
    then show ?thesis using f by (simp add: feasible_def)
  qed
  show ?thesis using um bounds feas by blast
qed

lemma nth_in_middle:
  "j < length ys \<Longrightarrow> (xs @ ys @ zs) ! (length xs + j) = ys ! j"
  by (simp add: nth_append)

lemma populate_integer_bounds:
  assumes "populate_integer [] self a b = Inr (self1, model1)"
    and "constr_previous_state self = []" "constr_previous_start self = None"
  shows "list_all (\<lambda>h. RHS (model1 ! h) = NegInfinity) (constr_previous_state self1)"
    and "constr_previous_start self1 = None \<or>
         (\<exists>h. constr_previous_start self1 = Some h \<and> RHS (model1 ! h) = PosInfinity)"
proof -
  define H where "H = op_horizon self"
  define S where "S = P_State_vars self @
              map (\<lambda>t. \<lparr>vid = P_State t, lb = Finite 0, ub = Finite 1, vtype = BINARY\<rparr>) [0..<H]"
  define coupling where "coupling = map (\<lambda>t. \<lparr>lhs = [(P_El_Nom self, vid (S ! t)), (- 1, vid (P_El_vars self ! t))],
                                 sense = LESS_EQUAL, RHS = Finite 0\<rparr>) [0..<H]"
  define previous_state where "previous_state = map (\<lambda>t. \<lparr>lhs = quicksum (py_slice S 0 t),
                                       sense = GREATER_EQUAL, RHS = NegInfinity\<rparr>) [1..min (max a (b - 1)) (int H)]"
  define next_states where "next_states = (\<lambda>t. py_slice S (int t) (int t + a + 1))"
  define max_low_constrs where "max_low_constrs =
                 map (\<lambda>t. \<lparr>lhs = quicksum (next_states t), sense = GREATER_EQUAL, RHS = Finite 1\<rparr>)
                   (filter (\<lambda>t. int (length (next_states t)) = a + 1) [0..<H])"
  define start where "start = \<lparr>lhs = (real (length (py_slice S 1 b)), vid (S ! 0)) # negsum (py_slice S 1 b),
                                sense = LESS_EQUAL, RHS = PosInfinity\<rparr>"
  from assms(1) have hs: "constr_previous_state self1 = [length coupling..<length coupling + length previous_state]"
    and m: "\<exists>rest. model1 = coupling @ previous_state @ rest"
    and st: "constr_previous_start self1 = None \<or>
             (\<exists>rest. constr_previous_start self1 = Some (length (coupling @ previous_state @ max_low_constrs))
                \<and> model1 = (coupling @ previous_state @ max_low_constrs) @ start # rest)"
    unfolding populate_integer_def Let_def H_def[symmetric] S_def[symmetric] coupling_def[symmetric]
      previous_state_def[symmetric] next_states_def[symmetric] max_low_constrs_def[symmetric]
      start_def[symmetric]
    using assms(2,3) by (auto simp: max_low_constrs_def next_states_def split: if_splits)
  from m obtain rest where m1: "model1 = coupling @ previous_state @ rest" by blast
  have "RHS (model1 ! h) = NegInfinity" if "h \<in> set (constr_previous_state self1)" for h
  proof -
    from that obtain j where j: "h = length coupling + j" "j < length previous_state"
      unfolding hs by (auto simp: nat_le_iff_add)
    have "model1 ! h = previous_state ! j" unfolding m1 j(1) by (rule nth_in_middle[OF j(2)])
    then show ?thesis using j(2) by (simp add: previous_state_def)
  qed
  then show "list_all (\<lambda>h. RHS (model1 ! h) = NegInfinity) (constr_previous_state self1)"
    by (simp add: list_all_iff)
  from st show "constr_previous_start self1 = None \<or>
         (\<exists>h. constr_previous_start self1 = Some h \<and> RHS (model1 ! h) = PosInfinity)"
  proof
    assume "constr_previous_start self1 = None" then show ?thesis by simp
  next
    assume "\<exists>rest. constr_previous_start self1 = Some (length (coupling @ previous_state @ max_low_constrs))
                \<and> model1 = (coupling @ previous_state @ max_low_constrs) @ start # rest"
    then obtain rest where r: "constr_previous_start self1 = Some (length (coupling @ previous_state @ max_low_constrs))"
      "model1 = (coupling @ previous_state @ max_low_constrs) @ start # rest" by blast
    have "model1 ! length (coupling @ previous_state @ max_low_constrs) = start"
      unfolding r(2) by (rule nth_append_length)
    then show ?thesis using r(1) by (simp add: start_def)
  qed
qed

lemma map_const_replicate:
  "list_all (\<lambda>h. f h = c) hs \<Longrightarrow> map f hs = replicate (length hs) c"
  by (induction hs) auto

lemma populate_model_integer_bounds:
  assumes "init H T nom curt ml mf = Inr self0"
    and "populate_model [] ''integer'' self0 = Inr (self1, model1)"
  shows "history_bounds self1 model1 =
           (replicate (length (constr_previous_state self1)) NegInfinity,
            map_option (\<lambda>h. PosInfinity) (constr_previous_start self1), [])"
proof -
  from assms(1) have s0: "constr_previous self0 = []" "constr_previous_state self0 = []"
    "constr_previous_start self0 = None" "max_low self0 = ml"
    by (auto simp: init_def split: if_splits)
  have np: "constr_previous self1 = []"
    using populate_model_no_previous[OF assms] by simp
  have "list_all (\<lambda>h. RHS (model1 ! h) = NegInfinity) (constr_previous_state self1) \<and>
        (constr_previous_start self1 = None \<or>
         (\<exists>h. constr_previous_start self1 = Some h \<and> RHS (model1 ! h) = PosInfinity))"
  proof (cases "ml = None \<or> ml = Some 0")
    case True
    then have "constr_previous_state self1 = []" "constr_previous_start self1 = None"
      using assms(2) s0
      by (auto simp: populate_model_def ElectricalEntity_populate_model_def Let_def split: if_splits)
    then show ?thesis by simp
  next
    case False
    then obtain a where a: "ml = Some a" "a \<noteq> 0" by auto
    from assms(2) obtain b s2 where "populate_integer [] s2 a b = Inr (self1, model1)"
      "constr_previous_state s2 = []" "constr_previous_start s2 = None"
      using s0 a
      by (auto simp: populate_model_def ElectricalEntity_populate_model_def Let_def
               split: if_splits option.splits)
    from populate_integer_bounds[OF this] show ?thesis by simp
  qed
  then show ?thesis
    by (auto simp: history_bounds_def np map_const_replicate)
qed

lemma populate_model_trivial:
  assumes "init H T nom curt ml mf = Inr self0"
    and "populate_model [] mode self0 = Inr (self1, model1)"
    and "ml = None \<or> ml = Some 0"
  shows "constr_previous_state self1 = []" "constr_previous_start self1 = None"
    "constr_previous self1 = []"
proof -
  from assms(1) have s0: "constr_previous self0 = []" "constr_previous_state self0 = []"
    "constr_previous_start self0 = None" "max_low self0 = ml"
    by (auto simp: init_def split: if_splits)
  show "constr_previous_state self1 = []" "constr_previous_start self1 = None"
    "constr_previous self1 = []"
    using assms(2,3) s0
    by (auto simp: populate_model_def ElectricalEntity_populate_model_def Let_def split: if_splits)
qed

text \<open>
  C7 (as amended). When \<open>update_model\<close> is called at simulation timestep 0 on a freshly
  populated model, it returns. In the discrete encoding every history constraint keeps the
  unconstraining bound it was created with (minus infinity, and plus infinity for the
  switch-on constraint): the model is unchanged. In the relaxed encoding the history
  constraint number \<open>k\<close>, for \<open>k\<close> from 1 to the smaller of \<open>min_full + max_low - 1\<close> and the
  window length, receives the finite bound \<open>P_El_Curt * min(k, max_low) + P_El_Nom * (k -
  max_low)\<close> (the difference cut off at 0), which is what a window of \<open>min_full + max_low\<close>
  steps requires of its last \<open>k\<close> steps when the steps before the simulation are taken at
  nominal power. When the window is at least \<open>min_full + max_low\<close> steps long (or the
  encoding is the discrete one, or max_low is absent or 0) the updated model admits every
  assignment that the variable bounds and the in-window constraints admit.
\<close>

theorem update_model_at_simulation_start:
  assumes "init H T nom curt ml mf = Inr self0"
    and "populate_model [] mode self0 = Inr (self1, model1)"
  shows "\<exists>model2. update_model model1 mode (realised self1 0 powers states) = Inr model2 \<and>
           (mode = ''integer'' \<longrightarrow>
              model2 = model1 \<and>
              history_bounds self1 model2 =
                (replicate (length (constr_previous_state self1)) NegInfinity,
                 map_option (\<lambda>h. PosInfinity) (constr_previous_start self1), [])) \<and>
           (mode = ''convex'' \<longrightarrow>
              history_bounds self1 model2 =
                ([], None,
                 case ml of
                   None \<Rightarrow> []
                 | Some a \<Rightarrow>
                     if a = 0 then []
                     else map (\<lambda>k. Finite (real (min k (nat a)) * (nom * curt)
                                           + real (k - nat a) * nom))
                            [1..<Suc (min (nat (a + the mf - 1)) H)])) \<and>
           (mode = ''integer'' \<or> ml = None \<or> ml = Some 0 \<or> the ml + the mf \<le> int H \<longrightarrow>
              (\<forall>\<sigma>. feasible \<sigma> self1 model1 \<longrightarrow> feasible \<sigma> self1 model2))"
proof (cases "mode = ''integer'' \<or> ml = None \<or> ml = Some 0")
  case True
  have np: "constr_previous self1 = []"
    using populate_model_no_previous[OF assms(1,2) True] .
  then have u: "update_model model1 mode (realised self1 0 powers states) = Inr model1"
    by (intro update_model_unchanged) (simp_all add: realised_fields)
  have i: "history_bounds self1 model1 =
                (replicate (length (constr_previous_state self1)) NegInfinity,
                 map_option (\<lambda>h. PosInfinity) (constr_previous_start self1), [])"
    if "mode = ''integer''"
    using populate_model_integer_bounds[OF assms(1)] assms(2) that by simp
  have c: "history_bounds self1 model1 =
                ([], None,
                 case ml of
                   None \<Rightarrow> []
                 | Some a \<Rightarrow>
                     if a = 0 then []
                     else map (\<lambda>k. Finite (real (min k (nat a)) * (nom * curt)
                                           + real (k - nat a) * nom))
                            [1..<Suc (min (nat (a + the mf - 1)) H)])"
    if m: "mode = ''convex''"
  proof -
    from True m have t: "ml = None \<or> ml = Some 0" by simp
    from populate_model_trivial[OF assms(1,2) t] t show ?thesis
      by (auto simp: history_bounds_def)
  qed
  show ?thesis using u i c by simp
next
  case False
  then obtain a where ml: "ml = Some a" "a \<noteq> 0" and ni: "mode \<noteq> ''integer''" by auto
  from assms(1) ml obtain b where mf: "mf = Some b"
    by (cases mf) (auto simp: init_def split: if_splits)
  from assms(2) have "mode = ''convex'' \<or> mode = ''integer''"
    by (auto simp: populate_model_def Let_def split: if_splits)
  with ni have m: "mode = ''convex''" by simp
  note a1 = assms(1)[unfolded ml mf] and a2 = assms(2)[unfolded m]
  from convex_start_update[OF a1 a2 ml(2), of powers states]
  obtain model2 where u: "update_model model1 ''convex'' (realised self1 0 powers states) = Inr model2"
    and bnds: "map (\<lambda>h. RHS (model2 ! h)) (constr_previous self1) =
             map (\<lambda>k. Finite (real (min k (nat a)) * (nom * curt) + real (k - nat a) * nom))
               [1..<Suc (min (nat (a + b - 1)) H)]"
    and reg: "a + b \<le> int H \<Longrightarrow> (\<forall>\<sigma>. feasible \<sigma> self1 model1 \<longrightarrow> feasible \<sigma> self1 model2)"
    by blast
  note pm = populate_model_convex[OF a1 a2 ml(2)]
  have hb: "history_bounds self1 model2 =
                ([], None,
                 map (\<lambda>k. Finite (real (min k (nat a)) * (nom * curt) + real (k - nat a) * nom))
                   [1..<Suc (min (nat (a + b - 1)) H)])"
    using bnds by (simp add: history_bounds_def pm)
  show ?thesis using u hb reg ni False unfolding m ml mf by auto
qed

lemma convex_example_populates:
  "\<not> isl (init 4 24 10 (1/5) (Some 1) (Some 2)) \<and>
   \<not> isl (populate_model [] ''convex'' (projr (init 4 24 10 (1/5) (Some 1) (Some 2))))"
  by code_simp

theorem update_model_at_simulation_start_witness:
  "\<exists>self0 self1 model1 model2.
     init 4 24 10 (1/5) (Some 1) (Some 2) = Inr self0 \<and>
     populate_model [] ''convex'' self0 = Inr (self1, model1) \<and>
     update_model model1 ''convex'' (realised self1 0 (replicate 24 0) (replicate 24 False))
       = Inr model2 \<and>
     history_bounds self1 model2 = ([], None, [Finite 2, Finite 12])"
proof -
  obtain self0 where a: "init 4 24 10 (1/5) (Some 1) (Some 2) = Inr self0"
    using convex_example_populates by (cases "init 4 24 10 (1/5) (Some 1) (Some 2)") auto
  obtain self1 model1 where b: "populate_model [] ''convex'' self0 = Inr (self1, model1)"
    using convex_example_populates a by (cases "populate_model [] ''convex'' self0") auto
  have r: "[1..<Suc (min (nat (1 + 2 - 1)) 4)] = [1, 2]"
    by (simp add: upt_rec numeral_2_eq_2)
  from update_model_at_simulation_start[OF a b, of "replicate 24 0" "replicate 24 False"]
  obtain model2 where
    "update_model model1 ''convex'' (realised self1 0 (replicate 24 0) (replicate 24 False))
       = Inr model2"
    "history_bounds self1 model2 =
       ([], None, map (\<lambda>k. Finite (real (min k (nat 1)) * (10 * (1/5)) + real (k - nat 1) * 10))
                    [1..<Suc (min (nat (1 + 2 - 1)) 4)])"
    by auto
  then show ?thesis using a b unfolding r by auto
qed

text \<open>
  C7 as stated fails for the relaxed encoding on a window shorter than
  \<open>min_full + max_low\<close>: with max_low = 1, min_full = 2 and a window of 2 steps there is no
  in-window constraint, the assignment of the curtailed power 2 to both steps respects the
  variable bounds, and the bound 12 written at timestep 0 on the sum of the two steps
  excludes it.
\<close>

theorem short_window_start_restricts:
  "restricts (all_at 2)
     (rolling_step 2 24 10 (1/5) (Some 1) (Some 2) ''convex'' 0 (replicate 24 0) (replicate 24 False))"
  by code_simp

end
